theory Spec2Isabelle
  imports Main
begin

section \<open>C conventions shared by the modules\<close>

text \<open>
  All quantities of the program are \<open>int32_t\<close>. Every function that computes with
  its arguments checks their range first, and inside those ranges no intermediate value
  leaves the 32-bit range, so the integers are modelled as \<open>int\<close>. The C
  operators \<open>/\<close> and \<open>%\<close> truncate towards zero; they are modelled as such.

  A call of \<open>abort()\<close> is the error \<open>Fault\<close>; a function that reports failure
  by returning \<open>false\<close> yields the error \<open>Invalid\<close>. Output parameters are
  modelled as the returned value.
\<close>

datatype error = Fault | Invalid

definition c_div :: "int \<Rightarrow> int \<Rightarrow> int" where
  "c_div a b = sgn a * sgn b * (\<bar>a\<bar> div \<bar>b\<bar>)"

definition c_mod :: "int \<Rightarrow> int \<Rightarrow> int" where
  "c_mod a b = a - b * c_div a b"

section \<open>grcal.c: the Gregorian calendar\<close>

abbreviation (input) GRCAL_DAY_MIN :: int where "GRCAL_DAY_MIN \<equiv> 139750"
abbreviation (input) GRCAL_DAY_MAX :: int where "GRCAL_DAY_MAX \<equiv> 3214073"

abbreviation (input) MONTH_COUNT :: int where "MONTH_COUNT \<equiv> 12"
abbreviation (input) MONTH_OFFSET :: int where "MONTH_OFFSET \<equiv> 2"
abbreviation (input) LONG_MONTH_LENGTH :: int where "LONG_MONTH_LENGTH \<equiv> 31"
abbreviation (input) SHORT_MONTH_LENGTH :: int where "SHORT_MONTH_LENGTH \<equiv> 30"
abbreviation (input) LEAP_MONTH_LENGTH :: int where "LEAP_MONTH_LENGTH \<equiv> 29"
abbreviation (input) NONLEAP_MONTH_LENGTH :: int where "NONLEAP_MONTH_LENGTH \<equiv> 28"
abbreviation (input) QC_DAYS :: int where "QC_DAYS \<equiv> 146097"
abbreviation (input) C_DAYS :: int where "C_DAYS \<equiv> 36524"
abbreviation (input) Q_DAYS :: int where "Q_DAYS \<equiv> 1461"
abbreviation (input) Y_DAYS :: int where "Y_DAYS \<equiv> 365"
abbreviation (input) Y_LEAP_DAYS :: int where "Y_LEAP_DAYS \<equiv> 366"
abbreviation (input) QC_C_COUNT :: int where "QC_C_COUNT \<equiv> 4"
abbreviation (input) C_Q_COUNT :: int where "C_Q_COUNT \<equiv> 25"
abbreviation (input) Q_Y_COUNT :: int where "Q_Y_COUNT \<equiv> 4"
abbreviation (input) QC_YEARS :: int where "QC_YEARS \<equiv> 400"
abbreviation (input) C_YEARS :: int where "C_YEARS \<equiv> 100"
abbreviation (input) Q_YEARS :: int where "Q_YEARS \<equiv> 4"
abbreviation (input) BASE_YEAR :: int where "BASE_YEAR \<equiv> 1200"
abbreviation (input) MAX_YEAR :: int where "MAX_YEAR \<equiv> 9999"

definition m_pattern :: string where
  "m_pattern = ''+-+-++-+-++*''"

text \<open>\<open>isLeapYear\<close>: aborts below year one, otherwise applies the two rules in turn.\<close>

definition isLeapYear :: "int \<Rightarrow> error + bool" where
  "isLeapYear y =
     (if y < 1 then Inl Fault
      else
        (let leapyear = False;
             leapyear = (if c_mod y 400 = 0 then True else leapyear);
             leapyear = (if c_mod y 4 = 0 \<and> c_mod y 100 \<noteq> 0 then True else leapyear)
         in Inr leapyear))"

text \<open>
  \<open>monthLength\<close>: the length of the March-based month \<open>i\<close>, zero for the month of
  variable length; aborts on an index outside the pattern or on a foreign pattern
  character.
\<close>

definition monthLength :: "int \<Rightarrow> error + int" where
  "monthLength i =
     (if i < 0 \<or> i \<ge> MONTH_COUNT then Inl Fault
      else
        (let c = m_pattern ! nat i in
         if c = CHR ''+'' then Inr LONG_MONTH_LENGTH
         else if c = CHR ''-'' then Inr SHORT_MONTH_LENGTH
         else if c = CHR ''*'' then Inr 0
         else Inl Fault))"

text \<open>
  The \<open>while (d > 0)\<close> loop of \<open>grcal_offsetToDate\<close>, on the loop variables
  \<open>month\<close> and \<open>d\<close>.
\<close>

function month_scan :: "int \<Rightarrow> int \<Rightarrow> error + (int \<times> int)" where
  "month_scan month d =
     (if d > 0 then
        (case monthLength month of
           Inl e \<Rightarrow> Inl e
         | Inr ml \<Rightarrow>
             if ml = 0 \<or> d < ml then Inr (month, d)
             else month_scan (month + 1) (d - ml))
      else Inr (month, d))"
  by pat_completeness auto
termination
  by (relation "measure (\<lambda>(month, d). nat (MONTH_COUNT - month))")
     (auto simp: monthLength_def split: if_splits)

declare month_scan.simps [simp del]

text \<open>
  The first half of \<open>grcal_offsetToDate\<close>: the split of a day offset into quad
  centuries, centuries, quad years, years and days, with the two leap-day special cases.
\<close>

definition offset_split :: "int \<Rightarrow> int \<times> int \<times> int \<times> int \<times> int" where
  "offset_split offs0 =
     (let qc = c_div offs0 QC_DAYS; offs = c_mod offs0 QC_DAYS;
          c = c_div offs C_DAYS; offs = c_mod offs C_DAYS;
          q = c_div offs Q_DAYS; offs = c_mod offs Q_DAYS;
          y = c_div offs Y_DAYS; offs = c_mod offs Y_DAYS;
          d = offs;
          (c, q, y, d) =
            (if c = QC_C_COUNT
             then (QC_C_COUNT - 1, C_Q_COUNT - 1, Q_Y_COUNT - 1, Y_LEAP_DAYS - 1)
             else (c, q, y, d));
          (y, d) = (if y = Q_Y_COUNT then (Q_Y_COUNT - 1, Y_LEAP_DAYS - 1) else (y, d))
      in (qc, c, q, y, d))"

definition grcal_offsetToDate :: "int \<Rightarrow> error + (int \<times> int \<times> int)" where
  "grcal_offsetToDate offs =
     (if offs < GRCAL_DAY_MIN \<or> offs > GRCAL_DAY_MAX then Inl Fault
      else
        (case offset_split offs of (qc, c, q, y, d) \<Rightarrow>
           (let year = qc * QC_YEARS + c * C_YEARS + q * Q_YEARS + y + BASE_YEAR in
            case month_scan 0 d of
              Inl e \<Rightarrow> Inl e
            | Inr (month, d) \<Rightarrow>
                (let day = d + 1;
                     month = month + MONTH_OFFSET;
                     (month, year) =
                       (if month \<ge> MONTH_COUNT then (month - MONTH_COUNT, year + 1)
                        else (month, year));
                     month = month + 1
                 in Inr (year, month, day)))))"

text \<open>
  The \<open>for (x = 0; x < month; x++)\<close> loop of \<open>grcal_dateToOffset\<close>, on the loop
  variables \<open>x\<close> and \<open>offs\<close>.
\<close>

function month_add :: "int \<Rightarrow> int \<Rightarrow> int \<Rightarrow> error + int" where
  "month_add x month offs =
     (if x < month then
        (case monthLength x of
           Inl e \<Rightarrow> Inl e
         | Inr ml \<Rightarrow> month_add (x + 1) month (offs + ml))
      else Inr offs)"
  by pat_completeness auto
termination
  by (relation "measure (\<lambda>(x, month, offs). nat (month - x))") auto

declare month_add.simps [simp del]

text \<open>
  The part of \<open>grcal_dateToOffset\<close> after the checks of the arguments: the day offset
  computed from a March-based year, a March-based month offset and a zero-based day
  offset within the month.
\<close>

definition march_offset :: "int \<Rightarrow> int \<Rightarrow> int \<Rightarrow> error + int" where
  "march_offset year0 month dayofmonth =
     (let year = year0 - BASE_YEAR;
          qc = c_div year QC_YEARS; year = c_mod year QC_YEARS;
          c = c_div year C_YEARS; year = c_mod year C_YEARS;
          q = c_div year Q_YEARS; year = c_mod year Q_YEARS;
          offs = qc * QC_DAYS + c * C_DAYS + q * Q_DAYS + year * Y_DAYS
      in case month_add 0 month offs of
           Inl e \<Rightarrow> Inl e
         | Inr offs \<Rightarrow> Inr (offs + dayofmonth))"

text \<open>
  The conversion of \<open>grcal_dateToOffset\<close> to a March-based year and month offset.
\<close>

definition march_based :: "int \<Rightarrow> int \<Rightarrow> int \<times> int" where
  "march_based year month0 =
     (let month = month0 - 1 - MONTH_OFFSET
      in if month < 0 then (year - 1, month + MONTH_COUNT) else (year, month))"

text \<open>
  The check of the day against the length of the month in \<open>grcal_dateToOffset\<close>: the
  length of a March-based month, with the leap year rule applied to the following
  January-based year for the month of variable length.
\<close>

definition march_month_len :: "int \<Rightarrow> int \<Rightarrow> error + int" where
  "march_month_len year month =
     (case monthLength month of
        Inl e \<Rightarrow> Inl e
      | Inr month_len \<Rightarrow>
          if month_len = 0 then
            (case isLeapYear (year + 1) of
               Inl e \<Rightarrow> Inl e
             | Inr leap \<Rightarrow> Inr (if leap then LEAP_MONTH_LENGTH else NONLEAP_MONTH_LENGTH))
          else Inr month_len)"

definition grcal_dateToOffset :: "int \<Rightarrow> int \<Rightarrow> int \<Rightarrow> error + int" where
  "grcal_dateToOffset year month dayofmonth =
     (if year \<le> BASE_YEAR \<or> month < 1 \<or> dayofmonth < 1 then Inl Invalid
      else if year > MAX_YEAR \<or> month > MONTH_COUNT then Inl Invalid
      else
        (let dayofmonth = dayofmonth - 1 in
         case march_based year month of (year, month) \<Rightarrow>
           (case march_month_len year month of
              Inl e \<Rightarrow> Inl e
            | Inr month_len \<Rightarrow>
                if dayofmonth \<ge> month_len then Inl Invalid
                else
                  (case march_offset year month dayofmonth of
                     Inl e \<Rightarrow> Inl e
                   | Inr offs \<Rightarrow>
                       if offs < GRCAL_DAY_MIN \<or> offs > GRCAL_DAY_MAX then Inl Invalid
                       else Inr offs))))"

text \<open>
  The value of \<open>offs\<close> with which \<open>grcal_dateToOffset\<close> reaches its last check,
  that of the range of the offset: the conversion to a March-based month and the offset
  computed from it, for the zero-based day \<open>dayofmonth - 1\<close>.
\<close>

definition computed_offset :: "int \<Rightarrow> int \<Rightarrow> int \<Rightarrow> error + int" where
  "computed_offset year month dayofmonth =
     (case march_based year month of (y, m) \<Rightarrow> march_offset y m (dayofmonth - 1))"

section \<open>nelsc_cycle.c: the NELSC day, month and year cycles\<close>

abbreviation (input) NELSC_CYCLE_DAYMIN :: int where "NELSC_CYCLE_DAYMIN \<equiv> - 35364"
abbreviation (input) NELSC_CYCLE_DAYMAX :: int where "NELSC_CYCLE_DAYMAX \<equiv> 175020"
abbreviation (input) NELSC_CYCLE_MONMIN :: int where "NELSC_CYCLE_MONMIN \<equiv> - 1197"
abbreviation (input) NELSC_CYCLE_MONMAX :: int where "NELSC_CYCLE_MONMAX \<equiv> 5926"
abbreviation (input) NELSC_CYCLE_YEARMIN :: int where "NELSC_CYCLE_YEARMIN \<equiv> - 96"
abbreviation (input) NELSC_CYCLE_YEARMAX :: int where "NELSC_CYCLE_YEARMAX \<equiv> 479"

abbreviation (input) DAYS_PER_SHORT_MONTH :: int where "DAYS_PER_SHORT_MONTH \<equiv> 28"
abbreviation (input) DAYS_PER_LONG_MONTH :: int where "DAYS_PER_LONG_MONTH \<equiv> 35"
abbreviation (input) MONTHS_PER_SHORT_YEAR :: int where "MONTHS_PER_SHORT_YEAR \<equiv> 12"
abbreviation (input) MONTHS_PER_LONG_YEAR :: int where "MONTHS_PER_LONG_YEAR \<equiv> 13"
abbreviation (input) DAYS_PER_MONTH_PATTERN :: int where "DAYS_PER_MONTH_PATTERN \<equiv> 945"
abbreviation (input) MONTH_PATTERN_LENGTH :: int where "MONTH_PATTERN_LENGTH \<equiv> 32"
abbreviation (input) MONTHS_PER_YEAR_SPAN :: int where "MONTHS_PER_YEAR_SPAN \<equiv> 136"
abbreviation (input) MONTHS_PER_YEAR_PATTERN :: int where "MONTHS_PER_YEAR_PATTERN \<equiv> 2857"
abbreviation (input) YEAR_SPAN_LENGTH :: int where "YEAR_SPAN_LENGTH \<equiv> 11"
abbreviation (input) YEAR_PATTERN_LENGTH :: int where "YEAR_PATTERN_LENGTH \<equiv> 231"
abbreviation (input) ABSOLUTE_DAY_OFFSET :: int where "ABSOLUTE_DAY_OFFSET \<equiv> 308"
abbreviation (input) ABSOLUTE_MONTH_OFFSET :: int where "ABSOLUTE_MONTH_OFFSET \<equiv> 10"
abbreviation (input) DAY_UP_BOOST :: int where "DAY_UP_BOOST \<equiv> 35910"
abbreviation (input) MONTH_UP_SINK :: int where "MONTH_UP_SINK \<equiv> 1216"
abbreviation (input) MONTH_UP_BOOST :: int where "MONTH_UP_BOOST \<equiv> 1496"
abbreviation (input) YEAR_UP_SINK :: int where "YEAR_UP_SINK \<equiv> 121"
abbreviation (input) YEAR_DOWN_BOOST :: int where "YEAR_DOWN_BOOST \<equiv> YEAR_UP_SINK"
abbreviation (input) MONTH_DOWN_SINK :: int where "MONTH_DOWN_SINK \<equiv> MONTH_UP_BOOST"
abbreviation (input) MONTH_DOWN_BOOST :: int where "MONTH_DOWN_BOOST \<equiv> MONTH_UP_SINK"
abbreviation (input) DAY_DOWN_SINK :: int where "DAY_DOWN_SINK \<equiv> DAY_UP_BOOST"

text \<open>
  A C string is modelled by the list of its characters before the terminating null.
  \<open>char_at s i\<close> is \<open>s[i]\<close>: the null character at the end of the string. (Beyond
  the terminator the C read is undefined; the model yields the null character there too,
  on which every reader below faults or fails.) A pointer that walks through a string
  (\<open>pc\<close>) is the rest of the string from the pointer on, \<open>deref pc\<close> is \<open>*pc\<close>
  and \<open>tl pc\<close> is \<open>pc++\<close>.
\<close>

definition char_at :: "string \<Rightarrow> int \<Rightarrow> char" where
  "char_at s i = (if 0 \<le> i \<and> i < int (length s) then s ! nat i else CHR 0x00)"

definition deref :: "string \<Rightarrow> char" where
  "deref pc = (case pc of [] \<Rightarrow> CHR 0x00 | c # _ \<Rightarrow> c)"

definition m_month_pattern :: string where
  "m_month_pattern = ''SSLS'' @ ''SSSLS'' @ ''SSLS'' @ ''SSSLS'' @ ''SSLS'' @ ''SSSLS'' @ ''SSSLS''"

definition m_year_span :: string where
  "m_year_span = ''SL'' @ ''SL'' @ ''SSL'' @ ''SSL'' @ ''S''"

definition charToBool :: "char \<Rightarrow> error + bool" where
  "charToBool c =
     (if c = CHR ''L'' then Inr True
      else if c = CHR ''S'' then Inr False
      else Inl Fault)"

text \<open>
  The \<open>while (d > 0)\<close> loop of \<open>nelsc_cycle_dayToMonth\<close>, on the loop variables
  \<open>pc\<close>, \<open>d\<close> and \<open>month_count\<close>.
\<close>

function month_walk :: "string \<Rightarrow> int \<Rightarrow> int \<Rightarrow> error + (int \<times> int)" where
  "month_walk pc d month_count =
     (if d > 0 then
        (case charToBool (deref pc) of
           Inl e \<Rightarrow> Inl e
         | Inr mlong \<Rightarrow>
             if (mlong \<and> d < DAYS_PER_LONG_MONTH) \<or> (\<not> mlong \<and> d < DAYS_PER_SHORT_MONTH)
             then Inr (month_count, d)
             else month_walk (tl pc)
                    (if mlong then d - DAYS_PER_LONG_MONTH else d - DAYS_PER_SHORT_MONTH)
                    (month_count + 1))
      else Inr (month_count, d))"
  by pat_completeness auto
termination
  by (relation "measure (\<lambda>(pc, d, month_count). nat d)") auto

declare month_walk.simps [simp del]

text \<open>
  \<open>nelsc_cycle_dayToMonth\<close>: the absolute month offset of a day, together with the
  day offset within the month (the value written to \<open>*pOffset\<close>).
\<close>

definition nelsc_cycle_dayToMonth :: "int \<Rightarrow> error + (int \<times> int)" where
  "nelsc_cycle_dayToMonth d0 =
     (if d0 < NELSC_CYCLE_DAYMIN \<or> d0 > NELSC_CYCLE_DAYMAX then Inl Fault
      else
        (let d = d0 + ABSOLUTE_DAY_OFFSET;
             (d, boosted) = (if d < 0 then (d + DAY_UP_BOOST, True) else (d, False));
             month_count = c_div d DAYS_PER_MONTH_PATTERN * MONTH_PATTERN_LENGTH;
             d = c_mod d DAYS_PER_MONTH_PATTERN
         in case month_walk m_month_pattern d month_count of
              Inl e \<Rightarrow> Inl e
            | Inr (month_count, d) \<Rightarrow>
                (let month_count = (if boosted then month_count - MONTH_UP_SINK else month_count);
                     month_count = month_count - ABSOLUTE_MONTH_OFFSET
                 in Inr (month_count, d))))"

text \<open>
  The \<open>for (i = 0; i < m; i++)\<close> loop of \<open>nelsc_cycle_monthToDay\<close>, on the loop
  variables \<open>i\<close> and \<open>day_count\<close>.
\<close>

function day_sum :: "int \<Rightarrow> int \<Rightarrow> int \<Rightarrow> error + int" where
  "day_sum i m day_count =
     (if i < m then
        (case charToBool (char_at m_month_pattern i) of
           Inl e \<Rightarrow> Inl e
         | Inr mlong \<Rightarrow>
             day_sum (i + 1) m
               (if mlong then day_count + DAYS_PER_LONG_MONTH
                else day_count + DAYS_PER_SHORT_MONTH))
      else Inr day_count)"
  by pat_completeness auto
termination
  by (relation "measure (\<lambda>(i, m, day_count). nat (m - i))") auto

declare day_sum.simps [simp del]

definition nelsc_cycle_monthToDay :: "int \<Rightarrow> error + int" where
  "nelsc_cycle_monthToDay m0 =
     (if m0 < NELSC_CYCLE_MONMIN \<or> m0 > NELSC_CYCLE_MONMAX then Inl Fault
      else
        (let m = m0 + ABSOLUTE_MONTH_OFFSET;
             (m, boosted) = (if m < 0 then (m + MONTH_DOWN_BOOST, True) else (m, False));
             day_count = c_div m MONTH_PATTERN_LENGTH * DAYS_PER_MONTH_PATTERN;
             m = c_mod m MONTH_PATTERN_LENGTH
         in case day_sum 0 m day_count of
              Inl e \<Rightarrow> Inl e
            | Inr day_count \<Rightarrow>
                (let day_count = (if boosted then day_count - DAY_DOWN_SINK else day_count);
                     day_count = day_count - ABSOLUTE_DAY_OFFSET
                 in Inr day_count)))"

text \<open>
  The \<open>while (m > 0)\<close> loop of \<open>nelsc_cycle_monthToYear\<close>, on the loop variables
  \<open>pc\<close>, \<open>m\<close> and \<open>year_count\<close>.
\<close>

function year_walk :: "string \<Rightarrow> int \<Rightarrow> int \<Rightarrow> error + (int \<times> int)" where
  "year_walk pc m year_count =
     (if m > 0 then
        (case charToBool (deref pc) of
           Inl e \<Rightarrow> Inl e
         | Inr mlong \<Rightarrow>
             if (mlong \<and> m < MONTHS_PER_LONG_YEAR) \<or> (\<not> mlong \<and> m < MONTHS_PER_SHORT_YEAR)
             then Inr (year_count, m)
             else year_walk (tl pc)
                    (if mlong then m - MONTHS_PER_LONG_YEAR else m - MONTHS_PER_SHORT_YEAR)
                    (year_count + 1))
      else Inr (year_count, m))"
  by pat_completeness auto
termination
  by (relation "measure (\<lambda>(pc, m, year_count). nat m)") auto

declare year_walk.simps [simp del]

text \<open>
  \<open>nelsc_cycle_monthToYear\<close>: the year of a month, together with the month offset
  within the year (the value written to \<open>*pOffset\<close>).
\<close>

definition nelsc_cycle_monthToYear :: "int \<Rightarrow> error + (int \<times> int)" where
  "nelsc_cycle_monthToYear m0 =
     (if m0 < NELSC_CYCLE_MONMIN \<or> m0 > NELSC_CYCLE_MONMAX then Inl Fault
      else
        (let m = m0 + ABSOLUTE_MONTH_OFFSET;
             m = m + MONTH_UP_BOOST;
             year_count = c_div m MONTHS_PER_YEAR_PATTERN * YEAR_PATTERN_LENGTH;
             m = c_mod m MONTHS_PER_YEAR_PATTERN;
             (year_count, m, force13) =
               (if m = MONTHS_PER_YEAR_PATTERN - 1
                then (year_count + (YEAR_PATTERN_LENGTH - 1), 0, True)
                else (year_count, m, False));
             year_count = year_count + c_div m MONTHS_PER_YEAR_SPAN * YEAR_SPAN_LENGTH;
             m = c_mod m MONTHS_PER_YEAR_SPAN
         in case year_walk m_year_span m year_count of
              Inl e \<Rightarrow> Inl e
            | Inr (year_count, m) \<Rightarrow>
                (let m = (if force13 then MONTHS_PER_LONG_YEAR - 1 else m);
                     year_count = year_count - YEAR_UP_SINK
                 in Inr (year_count, m))))"

text \<open>
  The \<open>for (i = 0; i < y; i++)\<close> loop of \<open>nelsc_cycle_yearToMonth\<close>, on the loop
  variables \<open>i\<close> and \<open>month_count\<close>.
\<close>

function month_sum :: "int \<Rightarrow> int \<Rightarrow> int \<Rightarrow> error + int" where
  "month_sum i y month_count =
     (if i < y then
        (case charToBool (char_at m_year_span i) of
           Inl e \<Rightarrow> Inl e
         | Inr mlong \<Rightarrow>
             month_sum (i + 1) y
               (if mlong then month_count + MONTHS_PER_LONG_YEAR
                else month_count + MONTHS_PER_SHORT_YEAR))
      else Inr month_count)"
  by pat_completeness auto
termination
  by (relation "measure (\<lambda>(i, y, month_count). nat (y - i))") auto

declare month_sum.simps [simp del]

definition nelsc_cycle_yearToMonth :: "int \<Rightarrow> error + int" where
  "nelsc_cycle_yearToMonth y0 =
     (if y0 < NELSC_CYCLE_YEARMIN \<or> y0 > NELSC_CYCLE_YEARMAX then Inl Fault
      else
        (let y = y0 + YEAR_DOWN_BOOST;
             month_count = c_div y YEAR_PATTERN_LENGTH * MONTHS_PER_YEAR_PATTERN;
             y = c_mod y YEAR_PATTERN_LENGTH;
             month_count = month_count + c_div y YEAR_SPAN_LENGTH * MONTHS_PER_YEAR_SPAN;
             y = c_mod y YEAR_SPAN_LENGTH
         in case month_sum 0 y month_count of
              Inl e \<Rightarrow> Inl e
            | Inr month_count \<Rightarrow>
                (let month_count = month_count - MONTH_DOWN_SINK;
                     month_count = month_count - ABSOLUTE_MONTH_OFFSET
                 in Inr month_count)))"

definition nelsc_cycle_isLongMonth :: "int \<Rightarrow> error + bool" where
  "nelsc_cycle_isLongMonth m =
     (if m < NELSC_CYCLE_MONMIN \<or> m > NELSC_CYCLE_MONMAX then Inl Fault
      else
        (case nelsc_cycle_monthToDay m of
           Inl e \<Rightarrow> Inl e
         | Inr day_begin \<Rightarrow>
             (case (if m < NELSC_CYCLE_MONMAX then nelsc_cycle_monthToDay (m + 1)
                    else Inr (NELSC_CYCLE_DAYMAX + 1)) of
                Inl e \<Rightarrow> Inl e
              | Inr day_next \<Rightarrow>
                  Inr (if day_next - day_begin > DAYS_PER_SHORT_MONTH then True else False))))"

definition nelsc_cycle_isLongYear :: "int \<Rightarrow> error + bool" where
  "nelsc_cycle_isLongYear y =
     (if y < NELSC_CYCLE_YEARMIN \<or> y > NELSC_CYCLE_YEARMAX then Inl Fault
      else
        (case nelsc_cycle_yearToMonth y of
           Inl e \<Rightarrow> Inl e
         | Inr month_begin \<Rightarrow>
             (case (if y < NELSC_CYCLE_YEARMAX then nelsc_cycle_yearToMonth (y + 1)
                    else Inr (NELSC_CYCLE_MONMAX + 1)) of
                Inl e \<Rightarrow> Inl e
              | Inr month_next \<Rightarrow>
                  Inr (if month_next - month_begin > MONTHS_PER_SHORT_YEAR then True
                       else False))))"

section \<open>base24.c: the base-24 codec\<close>

abbreviation (input) BASE24_PAIR_MIN :: int where "BASE24_PAIR_MIN \<equiv> - 96"
abbreviation (input) BASE24_PAIR_MAX :: int where "BASE24_PAIR_MAX \<equiv> 479"
abbreviation (input) BASE24_DIGIT_MAX :: int where "BASE24_DIGIT_MAX \<equiv> 23"
abbreviation (input) UPAIR24_MAX :: int where "UPAIR24_MAX \<equiv> 576"

definition m_base24 :: string where
  "m_base24 = ''0123456789ABCDEFGMPRTVXY''"

text \<open>
  Two functions of the C library, as the C standard describes them. \<open>toupper\<close> (in
  the C locale, which the program never leaves) maps the lower-case letters to upper
  case and leaves every other character alone. \<open>strchr s c\<close> finds the first
  occurrence of \<open>c\<close> in \<open>s\<close>, where the terminating null counts as part of the
  string; the result is the distance of the match from the start of the string, or
  \<open>None\<close> for the null pointer.
\<close>

definition toupper :: "char \<Rightarrow> char" where
  "toupper c =
     (let n = (of_char c :: nat) in if 97 \<le> n \<and> n \<le> 122 then char_of (n - 32) else c)"

fun strchr :: "string \<Rightarrow> char \<Rightarrow> nat option" where
  "strchr [] c = (if c = CHR 0x00 then Some 0 else None)"
| "strchr (x # xs) c = (if x = c then Some 0 else map_option Suc (strchr xs c))"

definition base24_digitToInt :: "char \<Rightarrow> int" where
  "base24_digitToInt c0 =
     (let c = toupper c0;
          pc = strchr m_base24 c;
          result = (if pc = None then - 1 else 0);
          result = (if result \<noteq> - 1 then int (the pc) else result)
      in result)"

definition base24_intToDigit :: "int \<Rightarrow> error + char" where
  "base24_intToDigit v =
     (if v < 0 \<or> v > BASE24_DIGIT_MAX then Inl Fault else Inr (m_base24 ! nat v))"

text \<open>
  \<open>base24_pairToInt\<close>, on a string that is not the null pointer: the value written to
  \<open>*pResult\<close>, or \<open>Invalid\<close> for the result \<open>false\<close>.
\<close>

definition base24_pairToInt :: "string \<Rightarrow> error + int" where
  "base24_pairToInt str =
     (if char_at str 0 = CHR 0x00 then Inl Invalid
      else
        (let digit_most = base24_digitToInt (char_at str 0);
             digit_least = base24_digitToInt (char_at str 1)
         in if digit_most = - 1 \<or> digit_least = - 1 then Inl Invalid
            else
              (let val = digit_most * 24 + digit_least;
                   val = (if val > BASE24_PAIR_MAX then val - UPAIR24_MAX else val)
               in Inr val)))"

text \<open>
  \<open>base24_printPair\<close>, on a file whose writes succeed: the characters written.
\<close>

definition base24_printPair :: "int \<Rightarrow> error + string" where
  "base24_printPair v0 =
     (if v0 < BASE24_PAIR_MIN \<or> v0 > BASE24_PAIR_MAX then Inl Fault
      else
        (let v = (if v0 < 0 then v0 + UPAIR24_MAX else v0);
             digit_least = c_mod v 24;
             digit_most = c_div v 24
         in case base24_intToDigit digit_most of
              Inl e \<Rightarrow> Inl e
            | Inr cm \<Rightarrow>
                (case base24_intToDigit digit_least of
                   Inl e \<Rightarrow> Inl e
                 | Inr cl \<Rightarrow> Inr [cm, cl])))"

section \<open>Notions used in the proofs\<close>

text \<open>
  The length of a pattern entry, the sum of the first \<open>k\<close> entries of a pattern, and
  the form of a pattern. The two walks over a pattern and the two sums over a pattern
  differ in the lengths of a long and a short entry only; \<open>walk\<close> and \<open>psum\<close>
  are the loops with the lengths as parameters, and the loops of the program are
  proved to be instances of them. (The test of \<open>walk\<close> for positive lengths is there
  for its termination only; the lengths of the program are positive.)
\<close>

definition seg :: "int \<Rightarrow> int \<Rightarrow> char \<Rightarrow> int" where
  "seg L S c = (if c = CHR ''L'' then L else S)"

definition cum :: "int \<Rightarrow> int \<Rightarrow> string \<Rightarrow> nat \<Rightarrow> int" where
  "cum L S pat k = sum_list (map (seg L S) (take k pat))"

definition pattern_ok :: "string \<Rightarrow> bool" where
  "pattern_ok pat = list_all (\<lambda>c. c = CHR ''S'' \<or> c = CHR ''L'') pat"

function walk :: "int \<Rightarrow> int \<Rightarrow> string \<Rightarrow> int \<Rightarrow> int \<Rightarrow> error + (int \<times> int)" where
  "walk L S pc d n =
     (if d > 0 then
        (case charToBool (deref pc) of
           Inl e \<Rightarrow> Inl e
         | Inr mlong \<Rightarrow>
             if (mlong \<and> d < L) \<or> (\<not> mlong \<and> d < S) then Inr (n, d)
             else if 0 < L \<and> 0 < S then walk L S (tl pc) (if mlong then d - L else d - S) (n + 1)
             else Inl Fault)
      else Inr (n, d))"
  by pat_completeness auto
termination
  by (relation "measure (\<lambda>(L, S, pc, d, n). nat d)") auto

declare walk.simps [simp del]

function psum :: "int \<Rightarrow> int \<Rightarrow> string \<Rightarrow> int \<Rightarrow> int \<Rightarrow> int \<Rightarrow> error + int" where
  "psum L S pat i m acc =
     (if i < m then
        (case charToBool (char_at pat i) of
           Inl e \<Rightarrow> Inl e
         | Inr mlong \<Rightarrow> psum L S pat (i + 1) m (if mlong then acc + L else acc + S))
      else Inr acc)"
  by pat_completeness auto
termination
  by (relation "measure (\<lambda>(L, S, pat, i, m, acc). nat (m - i))") auto

declare psum.simps [simp del]

abbreviation cumM :: "nat \<Rightarrow> int" where "cumM \<equiv> cum 35 28 m_month_pattern"
abbreviation cumY :: "nat \<Rightarrow> int" where "cumY \<equiv> cum 13 12 m_year_span"

text \<open>
  The words of the specification for the Gregorian calendar: a year is a leap year when
  it is divisible by 400, or by 4 and not by 100; the length of a month of a year, with
  the leap year rule for the second month.
\<close>

definition gregorian_leap :: "int \<Rightarrow> bool" where
  "gregorian_leap y = (y mod 400 = 0 \<or> (y mod 4 = 0 \<and> y mod 100 \<noteq> 0))"

definition gregorian_month_days :: "int \<Rightarrow> int \<Rightarrow> int" where
  "gregorian_month_days y m =
     (if m = 2 then (if gregorian_leap y then 29 else 28)
      else if m = 4 \<or> m = 6 \<or> m = 9 \<or> m = 11 then 30
      else 31)"

text \<open>
  For the proofs about \<open>grcal.c\<close>: the number of days before the March-based month
  \<open>mi\<close> of a leap year; the day offset made of a number of quad centuries, centuries,
  quad years, years and days; the ranges of these numbers; and the March-based years,
  given by their numbers, that end with a leap day.
\<close>

definition msum :: "int \<Rightarrow> int" where
  "msum mi = sum_list (take (nat mi) [31, 30, 31, 30, 31, 31, 30, 31, 30, 31, 31, 29])"

definition compose :: "int \<Rightarrow> int \<Rightarrow> int \<Rightarrow> int \<Rightarrow> int \<Rightarrow> int" where
  "compose qc c q y d = 146097 * qc + 36524 * c + 1461 * q + 365 * y + d"

definition digits_ok :: "int \<Rightarrow> int \<Rightarrow> int \<Rightarrow> int \<Rightarrow> bool" where
  "digits_ok qc c q y = (0 \<le> qc \<and> 0 \<le> c \<and> c \<le> 3 \<and> 0 \<le> q \<and> q \<le> 24 \<and> 0 \<le> y \<and> y \<le> 3)"

definition leap_digits :: "int \<Rightarrow> int \<Rightarrow> int \<Rightarrow> bool" where
  "leap_digits c q y = (y = 3 \<and> (q < 24 \<or> c = 3))"

section \<open>C division on the operands the program divides\<close>

lemma c_div_nonneg [simp]: "0 \<le> a \<Longrightarrow> 0 < b \<Longrightarrow> c_div a b = a div b"
  by (cases "a = 0") (simp_all add: c_div_def)

lemma c_mod_nonneg [simp]: "0 \<le> a \<Longrightarrow> 0 < b \<Longrightarrow> c_mod a b = a mod b"
  by (simp add: c_mod_def minus_mult_div_eq_mod)

section \<open>The leap year rule\<close>

text \<open>
  C6. For every year \<open>y \<ge> 1\<close>, \<open>isLeapYear y\<close> returns true exactly when \<open>y\<close> is
  divisible by 400, or divisible by 4 and not by 100; for \<open>y < 1\<close> the call aborts
  instead of returning. In particular 1600, 2000 and 2024 are leap years and 1700 and
  1900 are not.
\<close>

theorem isLeapYear_rule:
  "isLeapYear y =
     (if y < 1 then Inl Fault
      else Inr (y mod 400 = 0 \<or> (y mod 4 = 0 \<and> y mod 100 \<noteq> 0)))
   \<and> isLeapYear 1600 = Inr True \<and> isLeapYear 2000 = Inr True
   \<and> isLeapYear 2024 = Inr True
   \<and> isLeapYear 1700 = Inr False \<and> isLeapYear 1900 = Inr False"
  by (auto simp: isLeapYear_def)

section \<open>Boundaries of the Gregorian range\<close>

text \<open>
  C3. \<open>grcal_offsetToDate\<close> maps the least day offset 139750 to 1582-10-15 and the
  greatest day offset 3214073 to 9999-12-31.
\<close>

theorem grcal_offsetToDate_bounds:
  "grcal_offsetToDate 139750 = Inr (1582, 10, 15)
   \<and> grcal_offsetToDate 3214073 = Inr (9999, 12, 31)"
  by code_simp

section \<open>Boundaries of the NELSC ranges\<close>

text \<open>
  C4. The first day \<open>-35364\<close> lies in the first month \<open>-1197\<close> at day offset 0,
  and that month starts on that day; the last month 5926 starts on day 174986, which does
  not exceed the last day 175020; the first year \<open>-96\<close> starts with the first month
  \<open>-1197\<close>; and the last year 479 starts with month 5914, runs to the last month 5926
  (its thirteenth) and is a long year.
\<close>

theorem nelsc_cycle_bounds:
  "nelsc_cycle_dayToMonth (- 35364) = Inr (- 1197, 0)
   \<and> nelsc_cycle_monthToDay (- 1197) = Inr (- 35364)
   \<and> nelsc_cycle_monthToDay 5926 = Inr 174986 \<and> (174986 :: int) \<le> 175020
   \<and> nelsc_cycle_dayToMonth 175020 = Inr (5926, 34)
   \<and> nelsc_cycle_yearToMonth (- 96) = Inr (- 1197)
   \<and> nelsc_cycle_yearToMonth 479 = Inr 5914
   \<and> nelsc_cycle_monthToYear 5914 = Inr (479, 0)
   \<and> nelsc_cycle_monthToYear 5926 = Inr (479, 12)
   \<and> nelsc_cycle_isLongYear 479 = Inr True"
  by code_simp

section \<open>The sums of the patterns\<close>

text \<open>
  C8. The month pattern has 32 entries, each \<open>S\<close> or \<open>L\<close>, and at 28 days for
  \<open>S\<close> and 35 for \<open>L\<close> it sums to 945 days, which is also what the loop of
  \<open>nelsc_cycle_monthToDay\<close> counts over the whole pattern. The year span has 11
  entries and at 12 months for \<open>S\<close> and 13 for \<open>L\<close> sums to 136 months. The 21
  spans of a 231-year pattern and the one extra month of its last year make 2857 months,
  which is the distance that \<open>nelsc_cycle_yearToMonth\<close> puts between the years 110 and
  341, the first years of two patterns in a row.
\<close>

theorem pattern_sums:
  "length m_month_pattern = 32
   \<and> list_all (\<lambda>c. c = CHR ''S'' \<or> c = CHR ''L'') m_month_pattern
   \<and> sum_list (map (\<lambda>c. if c = CHR ''L'' then DAYS_PER_LONG_MONTH else DAYS_PER_SHORT_MONTH)
        m_month_pattern) = DAYS_PER_MONTH_PATTERN
   \<and> day_sum 0 MONTH_PATTERN_LENGTH 0 = Inr 945
   \<and> length m_year_span = 11
   \<and> list_all (\<lambda>c. c = CHR ''S'' \<or> c = CHR ''L'') m_year_span
   \<and> sum_list (map (\<lambda>c. if c = CHR ''L'' then MONTHS_PER_LONG_YEAR else MONTHS_PER_SHORT_YEAR)
        m_year_span) = MONTHS_PER_YEAR_SPAN
   \<and> month_sum 0 YEAR_SPAN_LENGTH 0 = Inr 136
   \<and> 21 * YEAR_SPAN_LENGTH = YEAR_PATTERN_LENGTH
   \<and> 21 * MONTHS_PER_YEAR_SPAN + 1 = MONTHS_PER_YEAR_PATTERN
   \<and> MONTHS_PER_YEAR_PATTERN = 2857
   \<and> nelsc_cycle_yearToMonth 110 = Inr 1351
   \<and> nelsc_cycle_yearToMonth 341 = Inr (1351 + 2857)"
  by code_simp

section \<open>The base-24 codec\<close>

text \<open>
  C9 fails on the null character: \<open>strchr\<close> finds the terminator of the digit
  string, so \<open>base24_digitToInt\<close> returns 24 for it instead of \<open>-1\<close>, and
  \<open>base24_pairToInt\<close> accepts the string with the single digit \<open>1\<close>, reads its
  terminator as a digit of value 24 and returns 48, the value of the pair \<open>20\<close>.
\<close>

theorem base24_null_digit:
  "base24_digitToInt (CHR 0x00) = 24
   \<and> base24_pairToInt ''1'' = Inr 48
   \<and> base24_pairToInt ''20'' = Inr 48"
  by code_simp

text \<open>
  On every other character the codec does what its header says. The 24 digits have the
  values 0 to 23, in either case; a character other than the null character whose upper
  case is not a digit has none; and a pair that \<open>base24_pairToInt\<close> accepts has a
  value from \<open>-96\<close> to 479, also when its second character is the terminator.
\<close>

lemma strchr_Some:
  "strchr s c = Some k \<Longrightarrow>
     (c \<in> set s \<and> k < length s \<and> s ! k = c) \<or> (c \<notin> set s \<and> k = length s \<and> c = CHR 0x00)"
proof (induction s arbitrary: k)
  case Nil
  then show ?case by (simp split: if_splits)
next
  case (Cons x xs)
  show ?case
  proof (cases "x = c")
    case True
    then show ?thesis using Cons.prems by simp
  next
    case False
    then obtain k' where k': "strchr xs c = Some k'" "k = Suc k'"
      using Cons.prems by auto
    from Cons.IH [OF k'(1)] False k'(2) show ?thesis by auto
  qed
qed

lemma strchr_None: "strchr s c = None \<Longrightarrow> c \<notin> set s \<and> c \<noteq> CHR 0x00"
  by (induction s) (auto split: if_splits)

lemma strchr_other: "c \<notin> set s \<Longrightarrow> c \<noteq> CHR 0x00 \<Longrightarrow> strchr s c = None"
  by (induction s) auto

lemma toupper_null: "toupper c = CHR 0x00 \<Longrightarrow> c = CHR 0x00"
proof (cases "97 \<le> (of_char c :: nat) \<and> (of_char c :: nat) \<le> 122")
  case True
  assume a: "toupper c = CHR 0x00"
  have "(of_char c :: nat) - 32 < 256" using True by arith
  then have "of_char (toupper c) = (of_char c :: nat) - 32"
    using True by (simp add: toupper_def Let_def)
  then show ?thesis using True a by simp
next
  case False
  assume "toupper c = CHR 0x00"
  then show ?thesis using False by (simp add: toupper_def Let_def split: if_splits)
qed

lemma base24_digits:
  "map base24_digitToInt ''0123456789ABCDEFGMPRTVXY''
     = [0, 1, 2, 3, 4, 5, 6, 7, 8, 9, 10, 11, 12, 13, 14, 15, 16, 17, 18, 19, 20, 21, 22, 23]"
  "map base24_digitToInt ''abcdefgmprtvxy'' = [10, 11, 12, 13, 14, 15, 16, 17, 18, 19, 20, 21, 22, 23]"
  by code_simp+

lemma base24_digitToInt_other:
  assumes "c \<noteq> CHR 0x00" "toupper c \<notin> set m_base24"
  shows "base24_digitToInt c = - 1"
proof -
  have "toupper c \<noteq> CHR 0x00" using assms(1) toupper_null by blast
  then have "strchr m_base24 (toupper c) = None" using assms(2) by (intro strchr_other)
  then show ?thesis by (simp add: base24_digitToInt_def)
qed

lemma base24_digitToInt_range:
  "- 1 \<le> base24_digitToInt c \<and> base24_digitToInt c \<le> 24
   \<and> (c \<noteq> CHR 0x00 \<longrightarrow> base24_digitToInt c \<le> BASE24_DIGIT_MAX)"
proof (cases "strchr m_base24 (toupper c)")
  case None
  then show ?thesis by (simp add: base24_digitToInt_def)
next
  case (Some k)
  have l: "length m_base24 = 24" by (simp add: m_base24_def)
  from strchr_Some [OF Some] toupper_null [of c] l
  have "k \<le> 24 \<and> (c \<noteq> CHR 0x00 \<longrightarrow> k \<le> 23)" by auto
  then show ?thesis using Some by (simp add: base24_digitToInt_def)
qed

lemma base24_pairToInt_range:
  assumes "base24_pairToInt str = Inr v"
  shows "BASE24_PAIR_MIN \<le> v \<and> v \<le> BASE24_PAIR_MAX"
proof -
  define a where "a = base24_digitToInt (char_at str 0)"
  define b where "b = base24_digitToInt (char_at str 1)"
  have nz: "char_at str 0 \<noteq> CHR 0x00" using assms by (auto simp: base24_pairToInt_def split: if_splits)
  have ab: "a \<noteq> - 1" "b \<noteq> - 1"
    using assms nz by (auto simp: base24_pairToInt_def a_def b_def Let_def split: if_splits)
  have "- 1 \<le> a" "a \<le> 23" using base24_digitToInt_range [of "char_at str 0"] nz by (auto simp: a_def)
  moreover have "- 1 \<le> b" "b \<le> 24" using base24_digitToInt_range [of "char_at str 1"] by (auto simp: b_def)
  ultimately have r: "0 \<le> a * 24 + b" "a * 24 + b \<le> 576" using ab by auto
  have "v = (if a * 24 + b > 479 then a * 24 + b - 576 else a * 24 + b)"
    using assms nz ab by (auto simp: base24_pairToInt_def a_def b_def Let_def split: if_splits)
  then show ?thesis using r by (auto split: if_splits)
qed

lemma digitToInt_intToDigit: "0 \<le> k \<Longrightarrow> k \<le> 23 \<Longrightarrow> base24_digitToInt (m_base24 ! nat k) = k"
proof -
  assume "0 \<le> k" "k \<le> 23"
  then have "k = 0 \<or> k = 1 \<or> k = 2 \<or> k = 3 \<or> k = 4 \<or> k = 5 \<or> k = 6 \<or> k = 7 \<or> k = 8 \<or> k = 9 \<or> k = 10 \<or> k = 11
    \<or> k = 12 \<or> k = 13 \<or> k = 14 \<or> k = 15 \<or> k = 16 \<or> k = 17 \<or> k = 18 \<or> k = 19 \<or> k = 20 \<or> k = 21 \<or> k = 22 \<or> k = 23"
    by arith
  then show ?thesis
    by (elim disjE) (simp_all add: base24_digitToInt_def m_base24_def toupper_def)
qed

lemma digit_not_null: "0 \<le> k \<Longrightarrow> k \<le> 23 \<Longrightarrow> m_base24 ! nat k \<noteq> CHR 0x00"
proof -
  assume "0 \<le> k" "k \<le> 23"
  then have "k = 0 \<or> k = 1 \<or> k = 2 \<or> k = 3 \<or> k = 4 \<or> k = 5 \<or> k = 6 \<or> k = 7 \<or> k = 8 \<or> k = 9 \<or> k = 10 \<or> k = 11
    \<or> k = 12 \<or> k = 13 \<or> k = 14 \<or> k = 15 \<or> k = 16 \<or> k = 17 \<or> k = 18 \<or> k = 19 \<or> k = 20 \<or> k = 21 \<or> k = 22 \<or> k = 23"
    by arith
  then show ?thesis
    by (elim disjE) (simp_all add: m_base24_def)
qed

text \<open>
  C10. For every value \<open>v\<close> from \<open>-96\<close> to 479, \<open>base24_printPair\<close> writes two
  characters, and \<open>base24_pairToInt\<close> reads them back as \<open>v\<close>.
\<close>

theorem base24_pair_roundtrip:
  assumes "BASE24_PAIR_MIN \<le> v" and "v \<le> BASE24_PAIR_MAX"
  shows "\<exists>s. base24_printPair v = Inr s \<and> length s = 2 \<and> base24_pairToInt s = Inr v"
proof -
  define u where "u = (if v < 0 then v + UPAIR24_MAX else v)"
  have u: "0 \<le> u" "u \<le> 575" using assms by (auto simp: u_def)
  have dm: "0 \<le> u div 24" "u div 24 \<le> 23" using u by auto
  have dl: "0 \<le> u mod 24" "u mod 24 \<le> 23" using u by auto
  define cm where "cm = m_base24 ! nat (u div 24)"
  define cl where "cl = m_base24 ! nat (u mod 24)"
  have p: "base24_printPair v = Inr [cm, cl]"
    using assms u dm dl
    by (simp add: base24_printPair_def base24_intToDigit_def u_def [symmetric] cm_def cl_def
        Let_def)
  have vm: "base24_digitToInt cm = u div 24"
    unfolding cm_def by (rule digitToInt_intToDigit [OF dm])
  have vl: "base24_digitToInt cl = u mod 24"
    unfolding cl_def by (rule digitToInt_intToDigit [OF dl])
  have nz: "cm \<noteq> CHR 0x00"
    unfolding cm_def by (rule digit_not_null [OF dm])
  have bk: "(if u > BASE24_PAIR_MAX then u - UPAIR24_MAX else u) = v"
    using assms by (auto simp: u_def)
  have "u div 24 * 24 + u mod 24 = u" by simp
  then have "base24_pairToInt [cm, cl] = Inr v"
    using nz dm dl bk by (simp add: base24_pairToInt_def char_at_def vm vl Let_def)
  with p show ?thesis by simp
qed

theorem base24_pair_roundtrip_witness:
  "base24_printPair (- 96) = Inr ''T0'' \<and> base24_pairToInt ''T0'' = Inr (- 96)"
proof -
  obtain s where s: "base24_printPair (- 96) = Inr s" "base24_pairToInt s = Inr (- 96)"
    using base24_pair_roundtrip [of "- 96"] by auto
  have "base24_printPair (- 96) = Inr ''T0''" by code_simp
  with s show ?thesis by simp
qed

section \<open>Walks and sums over a pattern\<close>

lemma month_walk_walk: "month_walk pc d n = walk 35 28 pc d n"
proof (induction pc d n rule: month_walk.induct)
  case (1 pc d n)
  show ?case
    by (subst month_walk.simps, subst walk.simps)
       (auto split: sum.splits simp: 1)
qed

lemma year_walk_walk: "year_walk pc d n = walk 13 12 pc d n"
proof (induction pc d n rule: year_walk.induct)
  case (1 pc d n)
  show ?case
    by (subst year_walk.simps, subst walk.simps)
       (auto split: sum.splits simp: 1)
qed

lemma day_sum_psum: "day_sum i m acc = psum 35 28 m_month_pattern i m acc"
proof (induction i m acc rule: day_sum.induct)
  case (1 i m acc)
  show ?case
    by (subst day_sum.simps, subst psum.simps)
       (auto split: sum.splits simp: 1)
qed

lemma month_sum_psum: "month_sum i m acc = psum 13 12 m_year_span i m acc"
proof (induction i m acc rule: month_sum.induct)
  case (1 i m acc)
  show ?case
    by (subst month_sum.simps, subst psum.simps)
       (auto split: sum.splits simp: 1)
qed

lemma cum_0 [simp]: "cum L S pat 0 = 0"
  by (simp add: cum_def)

lemma cum_Cons [simp]: "cum L S (c # cs) (Suc k) = seg L S c + cum L S cs k"
  by (simp add: cum_def)

lemma cum_Suc: "j < length pat \<Longrightarrow> cum L S pat (Suc j) = cum L S pat j + seg L S (pat ! j)"
  by (simp add: cum_def take_Suc_conv_app_nth)

lemma seg_pos: "0 < L \<Longrightarrow> 0 < S \<Longrightarrow> 0 < seg L S c"
  by (simp add: seg_def)

lemma cum_nonneg: "0 < L \<Longrightarrow> 0 < S \<Longrightarrow> 0 \<le> cum L S pat k"
  unfolding cum_def by (rule sum_list_nonneg) (auto simp: seg_def)

lemma cum_mono:
  assumes "0 < L" "0 < S" "a \<le> b"
  shows "cum L S pat a \<le> cum L S pat b"
proof -
  obtain c where b: "b = a + c" using assms(3) by (auto simp: le_iff_add)
  have "cum L S pat b = cum L S pat a + cum L S (drop a pat) c"
    by (simp add: cum_def b take_add)
  then show ?thesis using cum_nonneg [OF assms(1,2), of "drop a pat" c] by simp
qed

lemma pattern_ok_Cons [simp]:
  "pattern_ok (c # cs) = ((c = CHR ''S'' \<or> c = CHR ''L'') \<and> pattern_ok cs)"
  by (simp add: pattern_ok_def)

lemma charToBool_ok: "c = CHR ''S'' \<or> c = CHR ''L'' \<Longrightarrow> charToBool c = Inr (c = CHR ''L'')"
  by (auto simp: charToBool_def)

lemma walk_at:
  assumes "0 < L" "0 < S"
  shows "pattern_ok pc \<Longrightarrow> j < length pc \<Longrightarrow> 0 \<le> off \<Longrightarrow> off < seg L S (pc ! j)
         \<Longrightarrow> walk L S pc (cum L S pc j + off) n = Inr (n + int j, off)"
proof (induction pc arbitrary: j n)
  case Nil
  then show ?case by simp
next
  case (Cons c cs)
  have cb: "charToBool (deref (c # cs)) = Inr (c = CHR ''L'')"
    using Cons.prems(1) by (simp add: deref_def charToBool_ok)
  show ?case
  proof (cases j)
    case 0
    then show ?thesis
      using Cons.prems assms cb
      by (subst walk.simps) (auto simp: seg_def)
  next
    case (Suc j')
    have le: "0 \<le> cum L S cs j'" by (rule cum_nonneg [OF assms])
    have ih: "walk L S cs (cum L S cs j' + off) (n + 1) = Inr (n + 1 + int j', off)"
      using Cons.IH [of j' "n + 1"] Cons.prems Suc by simp
    show ?thesis
      using Cons.prems assms cb le ih Suc
      by (subst walk.simps) (auto simp: seg_def)
  qed
qed

lemma cum_split:
  assumes "0 < L" "0 < S"
  shows "pattern_ok pat \<Longrightarrow> 0 \<le> d \<Longrightarrow> d < cum L S pat (length pat)
         \<Longrightarrow> \<exists>j off. j < length pat \<and> 0 \<le> off \<and> off < seg L S (pat ! j) \<and> d = cum L S pat j + off"
proof (induction pat arbitrary: d)
  case Nil
  then show ?case by simp
next
  case (Cons c cs)
  show ?case
  proof (cases "d < seg L S c")
    case True
    then have "0 < length (c # cs) \<and> 0 \<le> d \<and> d < seg L S ((c # cs) ! 0) \<and> d = cum L S (c # cs) 0 + d"
      using Cons.prems by simp
    then show ?thesis by blast
  next
    case False
    then have "0 \<le> d - seg L S c" "d - seg L S c < cum L S cs (length cs)"
      using Cons.prems by auto
    then obtain j off where j: "j < length cs" "0 \<le> off" "off < seg L S (cs ! j)"
        "d - seg L S c = cum L S cs j + off"
      using Cons.IH [of "d - seg L S c"] Cons.prems(1) by auto
    then have "Suc j < length (c # cs) \<and> 0 \<le> off \<and> off < seg L S ((c # cs) ! Suc j) \<and> d = cum L S (c # cs) (Suc j) + off"
      by simp
    then show ?thesis by blast
  qed
qed

lemma psum_cum:
  "pattern_ok pat \<Longrightarrow> 0 \<le> i \<Longrightarrow> i \<le> m \<Longrightarrow> m \<le> int (length pat)
   \<Longrightarrow> psum L S pat i m acc = Inr (acc + cum L S pat (nat m) - cum L S pat (nat i))"
proof (induction L S pat i m acc rule: psum.induct)
  case (1 L S pat i m acc)
  show ?case
  proof (cases "i < m")
    case False
    with "1.prems" have "i = m" by simp
    then show ?thesis by (subst psum.simps) simp
  next
    case True
    then have il: "nat i < length pat" using "1.prems" by auto
    have "pat ! nat i \<in> set pat" using il by simp
    then have ok: "pat ! nat i = CHR ''S'' \<or> pat ! nat i = CHR ''L''"
      using "1.prems"(1) by (auto simp: pattern_ok_def list_all_iff)
    have il': "i < int (length pat)" using True "1.prems" by simp
    have cb: "charToBool (char_at pat i) = Inr (pat ! nat i = CHR ''L'')"
      using il' "1.prems"(2) ok by (simp add: char_at_def charToBool_ok)
    have s: "cum L S pat (nat (i + 1)) = cum L S pat (nat i) + seg L S (pat ! nat i)"
      using cum_Suc [OF il, of L S] "1.prems"(2) by (simp add: nat_add_distrib)
    have ih: "psum L S pat (i + 1) m (if pat ! nat i = CHR ''L'' then acc + L else acc + S)
      = Inr ((if pat ! nat i = CHR ''L'' then acc + L else acc + S) + cum L S pat (nat m) - cum L S pat (nat (i + 1)))"
      using "1.IH" [OF True cb] "1.prems" True by simp
    show ?thesis
      using True cb ih s by (subst psum.simps) (auto simp: seg_def)
  qed
qed

lemma pattern_ok_Nil [simp]: "pattern_ok []"
  by (simp add: pattern_ok_def)

lemma month_pattern_ok: "pattern_ok m_month_pattern" "length m_month_pattern = 32"
  by (simp_all add: m_month_pattern_def)

lemma year_span_ok: "pattern_ok m_year_span" "length m_year_span = 11"
  by (simp_all add: m_year_span_def)

lemma cumM_values: "cumM 32 = 945" "cumM 29 = 854" "cumM 16 = 469" "cumM 17 = 504"
  by (simp_all add: cum_def seg_def m_month_pattern_def)

lemma cumY_values: "cumY 11 = 136" "cumY 10 = 124" "cumY 3 = 37" "cumY 6 = 74" "cumY 7 = 87"
  by (simp_all add: cum_def seg_def m_year_span_def)

lemma cumM_less:
  assumes "j < 32" "0 \<le> off" "off < seg 35 28 (m_month_pattern ! j)"
  shows "cumM j + off < 945" "0 \<le> cumM j"
proof -
  have "cumM (Suc j) \<le> cumM 32" using assms(1) by (intro cum_mono) auto
  then show "cumM j + off < 945"
    using cum_Suc [of j m_month_pattern 35 28] assms by (simp add: month_pattern_ok cumM_values)
  show "0 \<le> cumM j" by (rule cum_nonneg) auto
qed

lemma cumY_less:
  assumes "j < 11" "0 \<le> off" "off < seg 13 12 (m_year_span ! j)"
  shows "cumY j + off < 136" "0 \<le> cumY j"
proof -
  have "cumY (Suc j) \<le> cumY 11" using assms(1) by (intro cum_mono) auto
  then show "cumY j + off < 136"
    using cum_Suc [of j m_year_span 13 12] assms by (simp add: year_span_ok cumY_values)
  show "0 \<le> cumY j" by (rule cum_nonneg) auto
qed

lemma cum_index_ge:
  assumes "0 < L" "0 < S" "j < length pat" "off < seg L S (pat ! j)" "cum L S pat a \<le> cum L S pat j + off"
  shows "a \<le> j"
proof (rule ccontr)
  assume "\<not> a \<le> j"
  then have "Suc j \<le> a" by simp
  then have "cum L S pat (Suc j) \<le> cum L S pat a" by (rule cum_mono [OF assms(1,2)])
  then show False using cum_Suc [OF assms(3), of L S] assms(4,5) by simp
qed

lemma cum_index_less:
  assumes "0 < L" "0 < S" "0 \<le> off" "cum L S pat j + off < cum L S pat a"
  shows "j < a"
proof (rule ccontr)
  assume "\<not> j < a"
  then have "a \<le> j" by simp
  then have "cum L S pat a \<le> cum L S pat j" by (rule cum_mono [OF assms(1,2)])
  then show False using assms(3,4) by simp
qed

lemma monthToDay_eq:
  assumes "NELSC_CYCLE_MONMIN \<le> m0" "m0 \<le> NELSC_CYCLE_MONMAX"
    and "m = (if m0 + 10 < 0 then m0 + 10 + 1216 else m0 + 10)"
    and "m = 32 * k + int j" "j < 32"
  shows "nelsc_cycle_monthToDay m0 =
         Inr (945 * k + cumM j - (if m0 + 10 < 0 then 35910 else 0) - 308)"
proof -
  have m0: "0 \<le> m" using assms by (auto split: if_splits)
  have k: "m div 32 = k" using assms(4,5) by (intro int_div_pos_eq [of _ _ _ "int j"]) auto
  have j: "m mod 32 = int j" using assms(4,5) by (intro int_mod_pos_eq [of _ _ k]) auto
  have "psum 35 28 m_month_pattern 0 (int j) (k * 945) = Inr (k * 945 + cumM (nat (int j)) - cumM (nat 0))"
    using assms(5) by (intro psum_cum) (auto simp: month_pattern_ok)
  then have ps: "day_sum 0 (int j) (k * 945) = Inr (k * 945 + cumM j)"
    by (simp add: day_sum_psum)
  show ?thesis
  proof (cases "m0 + 10 < 0")
    case True
    then have "m0 = m - 1226" using assms(3) by simp
    then show ?thesis
      using assms(1,2) True ps m0 k j by (simp add: nelsc_cycle_monthToDay_def)
  next
    case False
    then have "m0 = m - 10" using assms(3) by simp
    then show ?thesis
      using assms(1,2) False ps m0 k j by (simp add: nelsc_cycle_monthToDay_def)
  qed
qed

lemma dayToMonth_eq:
  assumes "NELSC_CYCLE_DAYMIN \<le> d0" "d0 \<le> NELSC_CYCLE_DAYMAX"
    and "d = (if d0 + 308 < 0 then d0 + 308 + 35910 else d0 + 308)"
    and "d = 945 * k + cumM j + off" "j < 32" "0 \<le> off" "off < seg 35 28 (m_month_pattern ! j)"
  shows "nelsc_cycle_dayToMonth d0 =
         Inr (32 * k + int j - (if d0 + 308 < 0 then 1216 else 0) - 10, off)"
proof -
  have d0: "0 \<le> d" using assms(1,3) by (auto split: if_splits)
  have r: "0 \<le> cumM j + off" "cumM j + off < 945"
    using cumM_less [OF assms(5,6,7)] assms(6) by auto
  have k: "d div 945 = k" using assms(4) r by (intro int_div_pos_eq [of _ _ _ "cumM j + off"]) auto
  have j: "d mod 945 = cumM j + off" using assms(4) r by (intro int_mod_pos_eq [of _ _ k]) auto
  have w: "month_walk m_month_pattern (cumM j + off) (k * 32) = Inr (k * 32 + int j, off)"
    unfolding month_walk_walk using assms(5,6,7)
    by (intro walk_at) (auto simp: month_pattern_ok)
  show ?thesis
  proof (cases "d0 + 308 < 0")
    case True
    then have "d0 = d - 36218" using assms(3) by simp
    then show ?thesis
      using assms(1,2) True w d0 k j by (simp add: nelsc_cycle_dayToMonth_def)
  next
    case False
    then have "d0 = d - 308" using assms(3) by simp
    then show ?thesis
      using assms(1,2) False w d0 k j by (simp add: nelsc_cycle_dayToMonth_def)
  qed
qed

section \<open>The NELSC day and month layer\<close>

lemma seg_month_pos: "0 < seg 35 28 c"
  by (simp add: seg_def)

lemma seg_year_pos: "0 < seg 13 12 c"
  by (simp add: seg_def)

lemma monthToDay_dayToMonth:
  assumes "NELSC_CYCLE_MONMIN \<le> m0" "m0 \<le> NELSC_CYCLE_MONMAX"
  shows "\<exists>d. nelsc_cycle_monthToDay m0 = Inr d \<and> nelsc_cycle_dayToMonth d = Inr (m0, 0)"
proof -
  define m where "m = (if m0 + 10 < 0 then m0 + 10 + 1216 else m0 + 10)"
  define k where "k = m div 32"
  define j where "j = nat (m mod 32)"
  have m: "0 \<le> m" "m \<le> 5936" using assms by (auto simp: m_def)
  have mb: "m0 + 10 < 0 \<Longrightarrow> 29 \<le> m \<and> m < 1216" using assms by (auto simp: m_def)
  have mkj: "m = 32 * k + int j" "j < 32" using m by (auto simp: k_def j_def)
  define d0 where "d0 = 945 * k + cumM j - (if m0 + 10 < 0 then 35910 else 0) - 308"
  have md: "nelsc_cycle_monthToDay m0 = Inr d0"
    unfolding d0_def by (rule monthToDay_eq [OF assms m_def mkj])
  have cj: "0 \<le> cumM j" "cumM j < 945"
    using cumM_less [OF mkj(2), of 0] seg_month_pos by auto
  have k0: "0 \<le> k" using m mkj by arith
  have lo: "NELSC_CYCLE_DAYMIN \<le> d0"
  proof (cases "m0 + 10 < 0")
    case True
    show ?thesis
    proof (cases "k = 0")
      case True
      with mb [OF \<open>m0 + 10 < 0\<close>] mkj have "29 \<le> j" by simp
      then have "cumM 29 \<le> cumM j" by (intro cum_mono) auto
      then show ?thesis using \<open>m0 + 10 < 0\<close> True by (simp add: d0_def cumM_values)
    next
      case False
      then have "1 \<le> k" using k0 by simp
      then show ?thesis using \<open>m0 + 10 < 0\<close> cj by (simp add: d0_def)
    qed
  next
    case False
    then show ?thesis using k0 cj by (simp add: d0_def)
  qed
  have k185: "k \<le> 185" using m mkj by arith
  have hi: "d0 \<le> NELSC_CYCLE_DAYMAX"
  proof (cases "k = 185")
    case True
    with m mkj have "j \<le> 16" by simp
    then have "cumM j \<le> cumM 16" by (intro cum_mono) auto
    then show ?thesis using True by (simp add: d0_def cumM_values)
  next
    case False
    then have "k \<le> 184" using k185 by simp
    then show ?thesis using cj by (simp add: d0_def)
  qed
  have sign: "(d0 + 308 < 0) = (m0 + 10 < 0)"
  proof (cases "m0 + 10 < 0")
    case True
    with mb mkj have "k \<le> 37" by arith
    then show ?thesis using True cj by (simp add: d0_def)
  next
    case False
    then show ?thesis using k0 cj by (simp add: d0_def)
  qed
  define d where "d = (if d0 + 308 < 0 then d0 + 308 + 35910 else d0 + 308)"
  have dd: "d = 945 * k + cumM j + 0" using sign by (auto simp: d_def d0_def)
  have "nelsc_cycle_dayToMonth d0 = Inr (32 * k + int j - (if d0 + 308 < 0 then 1216 else 0) - 10, 0)"
    by (rule dayToMonth_eq [OF lo hi d_def dd mkj(2)]) (simp_all add: seg_month_pos)
  also have "32 * k + int j - (if d0 + 308 < 0 then 1216 else 0) - 10 = m0"
    using mkj(1) by (auto simp: sign m_def)
  finally show ?thesis using md by simp
qed

lemma dayToMonth_monthToDay:
  assumes "NELSC_CYCLE_DAYMIN \<le> d0" "d0 \<le> NELSC_CYCLE_DAYMAX"
  shows "\<exists>m off d. nelsc_cycle_dayToMonth d0 = Inr (m, off) \<and> nelsc_cycle_monthToDay m = Inr d
           \<and> d + off = d0"
proof -
  define d where "d = (if d0 + 308 < 0 then d0 + 308 + 35910 else d0 + 308)"
  define k where "k = d div 945"
  define r where "r = d mod 945"
  have d: "0 \<le> d" "d \<le> 175328" using assms by (auto simp: d_def)
  have db: "d0 + 308 < 0 \<Longrightarrow> 854 \<le> d \<and> d < 35910" using assms by (auto simp: d_def)
  have dkr: "d = 945 * k + r" "0 \<le> r" "r < 945" by (auto simp: k_def r_def)
  have "r < cumM (length m_month_pattern)" using dkr by (simp add: month_pattern_ok cumM_values)
  then obtain j off where j: "j < 32" "0 \<le> off" "off < seg 35 28 (m_month_pattern ! j)"
      "r = cumM j + off"
    using cum_split [of 35 28 m_month_pattern r] dkr(2) by (auto simp: month_pattern_ok)
  have cj: "0 \<le> cumM j" by (rule cum_nonneg) auto
  define m0 where "m0 = 32 * k + int j - (if d0 + 308 < 0 then 1216 else 0) - 10"
  have dm: "nelsc_cycle_dayToMonth d0 = Inr (m0, off)"
    unfolding m0_def using dkr(1) j(4) by (intro dayToMonth_eq [OF assms d_def _ j(1,2,3)]) simp
  have k0: "0 \<le> k" using d dkr by arith
  have lo: "NELSC_CYCLE_MONMIN \<le> m0"
  proof (cases "d0 + 308 < 0")
    case True
    show ?thesis
    proof (cases "k = 0")
      case True
      with db [OF \<open>d0 + 308 < 0\<close>] dkr j have "cumM 29 \<le> cumM j + off" by (simp add: cumM_values)
      then have "29 \<le> j" using j by (intro cum_index_ge [of 35 28 j m_month_pattern off]) (auto simp: month_pattern_ok)
      then show ?thesis using \<open>d0 + 308 < 0\<close> True by (simp add: m0_def)
    next
      case False
      then have "1 \<le> k" using k0 by simp
      then show ?thesis using \<open>d0 + 308 < 0\<close> by (simp add: m0_def)
    qed
  next
    case False
    then show ?thesis using k0 by (simp add: m0_def)
  qed
  have k185: "k \<le> 185" using d dkr by arith
  have hi: "m0 \<le> NELSC_CYCLE_MONMAX"
  proof (cases "k = 185")
    case True
    with d dkr j have "cumM j + off < cumM 17" by (simp add: cumM_values)
    then have "j < 17" using j by (intro cum_index_less [of 35 28 off m_month_pattern j]) auto
    then show ?thesis using True by (simp add: m0_def)
  next
    case False
    then have "k \<le> 184" using k185 by simp
    then show ?thesis using j(1) by (simp add: m0_def)
  qed
  have sign: "(m0 + 10 < 0) = (d0 + 308 < 0)"
  proof (cases "d0 + 308 < 0")
    case True
    with db dkr have "k \<le> 37" by arith
    then show ?thesis using True j(1) by (simp add: m0_def)
  next
    case False
    then show ?thesis using k0 by (simp add: m0_def)
  qed
  define m where "m = (if m0 + 10 < 0 then m0 + 10 + 1216 else m0 + 10)"
  have mm: "m = 32 * k + int j" using sign by (auto simp: m_def m0_def)
  have md: "nelsc_cycle_monthToDay m0 = Inr (945 * k + cumM j - (if m0 + 10 < 0 then 35910 else 0) - 308)"
    by (rule monthToDay_eq [OF lo hi m_def mm j(1)])
  have "945 * k + cumM j - (if m0 + 10 < 0 then 35910 else 0) - 308 + off = d0"
    using dkr(1) j(4) by (auto simp: sign d_def split: if_splits)
  then show ?thesis using dm md by blast
qed

section \<open>The NELSC month and year layer\<close>

lemma yearToMonth_eq:
  assumes "NELSC_CYCLE_YEARMIN \<le> y0" "y0 \<le> NELSC_CYCLE_YEARMAX"
    and "y0 + 121 = 231 * a + 11 * b + int j" "0 \<le> b" "b \<le> 20" "j < 11"
  shows "nelsc_cycle_yearToMonth y0 = Inr (2857 * a + 136 * b + cumY j - 1506)"
proof -
  define y where "y = y0 + 121"
  have y: "0 \<le> y" "y0 = y - 121" using assms(1) by (auto simp: y_def)
  have t: "0 \<le> 11 * b + int j" "11 * b + int j < 231" using assms(4,5,6) by auto
  have a: "y div 231 = a"
    using assms(3) t by (intro int_div_pos_eq [of _ _ _ "11 * b + int j"]) (auto simp: y_def)
  have r: "y mod 231 = 11 * b + int j"
    using assms(3) t by (intro int_mod_pos_eq [of _ _ a]) (auto simp: y_def)
  have b: "(11 * b + int j) div 11 = b"
    using assms(6) by (intro int_div_pos_eq [of _ _ _ "int j"]) auto
  have j: "(11 * b + int j) mod 11 = int j"
    using assms(6) by (intro int_mod_pos_eq [of _ _ b]) auto
  have "psum 13 12 m_year_span 0 (int j) (a * 2857 + b * 136)
        = Inr (a * 2857 + b * 136 + cumY (nat (int j)) - cumY (nat 0))"
    using assms(6) by (intro psum_cum) (auto simp: year_span_ok)
  then have ps: "month_sum 0 (int j) (a * 2857 + b * 136) = Inr (a * 2857 + b * 136 + cumY j)"
    by (simp add: month_sum_psum)
  show ?thesis
    using assms(1,2) y(1) t(1) a r b j ps
    by (simp add: nelsc_cycle_yearToMonth_def y(2))
qed

lemma monthToYear_eq:
  assumes "NELSC_CYCLE_MONMIN \<le> m0" "m0 \<le> NELSC_CYCLE_MONMAX"
    and "m0 + 1506 = 2857 * a + 136 * b + cumY j + off" "0 \<le> b" "b \<le> 20" "j < 11"
    and "0 \<le> off" "off < seg 13 12 (m_year_span ! j)"
  shows "nelsc_cycle_monthToYear m0 = Inr (231 * a + 11 * b + int j - 121, off)"
proof -
  define m where "m = m0 + 1506"
  have m: "0 \<le> m" "m0 = m - 1506" using assms(1) by (auto simp: m_def)
  have s: "0 \<le> cumY j + off" "cumY j + off < 136"
    using cumY_less [OF assms(6,7,8)] assms(7) by auto
  define r where "r = 136 * b + (cumY j + off)"
  have t: "0 \<le> r" "r < 2857" "r \<noteq> 2856" using assms(4,5) s by (auto simp: r_def)
  have a: "m div 2857 = a"
    using assms(3) t by (intro int_div_pos_eq [of _ _ _ r]) (auto simp: m_def r_def)
  have r: "m mod 2857 = r"
    using assms(3) t by (intro int_mod_pos_eq [of _ _ a]) (auto simp: m_def r_def)
  have b: "r div 136 = b"
    using s by (intro int_div_pos_eq [of _ _ _ "cumY j + off"]) (auto simp: r_def)
  have j: "r mod 136 = cumY j + off"
    using s by (intro int_mod_pos_eq [of _ _ b]) (auto simp: r_def)
  have w: "year_walk m_year_span (cumY j + off) (a * 231 + b * 11) = Inr (a * 231 + b * 11 + int j, off)"
    unfolding year_walk_walk using assms(6,7,8)
    by (intro walk_at) (auto simp: year_span_ok)
  show ?thesis
    using assms(1,2) m(1) t a r b j w
    by (simp add: nelsc_cycle_monthToYear_def m(2))
qed

lemma monthToYear_forced:
  assumes "NELSC_CYCLE_MONMIN \<le> m0" "m0 \<le> NELSC_CYCLE_MONMAX"
    and "m0 + 1506 = 2857 * a + 2856"
  shows "nelsc_cycle_monthToYear m0 = Inr (231 * a + 230 - 121, 12)"
proof -
  define m where "m = m0 + 1506"
  have m: "0 \<le> m" "m0 = m - 1506" using assms(1) by (auto simp: m_def)
  have a: "m div 2857 = a"
    using assms(3) by (intro int_div_pos_eq [of _ _ _ 2856]) (auto simp: m_def)
  have r: "m mod 2857 = 2856"
    using assms(3) by (intro int_mod_pos_eq [of _ _ a]) (auto simp: m_def)
  have w: "year_walk m_year_span 0 n = Inr (n, 0)" for n
    by (subst year_walk.simps) simp
  show ?thesis
    using assms(1,2) m(1) a r w
    by (simp add: nelsc_cycle_monthToYear_def m(2))
qed

lemma yearToMonth_monthToYear:
  assumes "NELSC_CYCLE_YEARMIN \<le> y0" "y0 \<le> NELSC_CYCLE_YEARMAX"
  shows "\<exists>m. nelsc_cycle_yearToMonth y0 = Inr m \<and> nelsc_cycle_monthToYear m = Inr (y0, 0)"
proof -
  define y where "y = y0 + 121"
  define a where "a = y div 231"
  define t where "t = y mod 231"
  define b where "b = t div 11"
  define j where "j = nat (t mod 11)"
  have y: "25 \<le> y" "y \<le> 600" using assms by (auto simp: y_def)
  have yat: "y = 231 * a + t" "0 \<le> t" "t < 231" by (auto simp: a_def t_def)
  have tbj: "t = 11 * b + int j" "j < 11" using yat(2) by (auto simp: b_def j_def)
  have b: "0 \<le> b" "b \<le> 20" using yat tbj by arith+
  have a: "0 \<le> a" "a \<le> 2" using y yat by arith+
  have yy: "y0 + 121 = 231 * a + 11 * b + int j" using yat tbj by (simp add: y_def)
  define m0 where "m0 = 2857 * a + 136 * b + cumY j - 1506"
  have ym: "nelsc_cycle_yearToMonth y0 = Inr m0"
    unfolding m0_def by (rule yearToMonth_eq [OF assms yy b tbj(2)])
  have cj: "0 \<le> cumY j" "cumY j < 136"
    using cumY_less [OF tbj(2), of 0] seg_year_pos by auto
  have lo: "NELSC_CYCLE_MONMIN \<le> m0"
  proof (cases "a = 0")
    case True
    then have "25 \<le> 11 * b + int j" using y yy by (simp add: y_def)
    then have "3 \<le> b \<or> (b = 2 \<and> 3 \<le> j)" using tbj(2) b by arith
    then show ?thesis
    proof
      assume "3 \<le> b"
      then show ?thesis using a cj by (simp add: m0_def)
    next
      assume h: "b = 2 \<and> 3 \<le> j"
      then have "cumY 3 \<le> cumY j" by (intro cum_mono) auto
      then show ?thesis using a h by (simp add: m0_def cumY_values)
    qed
  next
    case False
    then have "1 \<le> a" using a by simp
    then show ?thesis using b cj by (simp add: m0_def)
  qed
  have hi: "m0 \<le> NELSC_CYCLE_MONMAX"
  proof (cases "a = 2")
    case True
    then have "11 * b + int j \<le> 138" using y yy by (simp add: y_def)
    then have "b \<le> 11 \<or> (b = 12 \<and> j \<le> 6)" using tbj(2) b by arith
    then show ?thesis
    proof
      assume "b \<le> 11"
      then show ?thesis using True cj by (simp add: m0_def)
    next
      assume h: "b = 12 \<and> j \<le> 6"
      then have "cumY j \<le> cumY 6" by (intro cum_mono) auto
      then show ?thesis using True h by (simp add: m0_def cumY_values)
    qed
  next
    case False
    then have "a \<le> 1" using a by simp
    then show ?thesis using b cj by (simp add: m0_def)
  qed
  have "nelsc_cycle_monthToYear m0 = Inr (231 * a + 11 * b + int j - 121, 0)"
    by (rule monthToYear_eq [OF lo hi _ b tbj(2)]) (simp_all add: m0_def seg_year_pos)
  then show ?thesis using ym yy by simp
qed

lemma monthToYear_yearToMonth:
  assumes "NELSC_CYCLE_MONMIN \<le> m0" "m0 \<le> NELSC_CYCLE_MONMAX"
  shows "\<exists>y off m. nelsc_cycle_monthToYear m0 = Inr (y, off) \<and> nelsc_cycle_yearToMonth y = Inr m
           \<and> m + off = m0"
proof -
  define m where "m = m0 + 1506"
  define a where "a = m div 2857"
  define r where "r = m mod 2857"
  have m: "309 \<le> m" "m \<le> 7432" using assms by (auto simp: m_def)
  have mar: "m = 2857 * a + r" "0 \<le> r" "r < 2857" by (auto simp: a_def r_def)
  have a: "0 \<le> a" "a \<le> 2" using m mar by arith+
  have a2: "a = 2 \<Longrightarrow> r \<le> 1718" using m mar by arith
  have a0: "a = 0 \<Longrightarrow> 309 \<le> r" using m mar by arith
  show ?thesis
  proof (cases "r = 2856")
    case True
    then have mm: "m0 + 1506 = 2857 * a + 2856" using mar by (simp add: m_def)
    have my: "nelsc_cycle_monthToYear m0 = Inr (231 * a + 230 - 121, 12)"
      by (rule monthToYear_forced [OF assms mm])
    have a1: "a \<le> 1" using a a2 True by arith
    have "nelsc_cycle_yearToMonth (231 * a + 230 - 121) = Inr (2857 * a + 136 * 20 + cumY 10 - 1506)"
      using a a1 by (intro yearToMonth_eq) auto
    then have "nelsc_cycle_yearToMonth (231 * a + 230 - 121) = Inr (m0 - 12)"
      using mm by (simp add: cumY_values)
    then show ?thesis using my by simp
  next
    case False
    define b where "b = r div 136"
    define s where "s = r mod 136"
    have rbs: "r = 136 * b + s" "0 \<le> s" "s < 136" by (auto simp: b_def s_def)
    have b: "0 \<le> b" "b \<le> 20" using mar rbs False by arith+
    have "s < cumY (length m_year_span)" using rbs by (simp add: year_span_ok cumY_values)
    then obtain j off where j: "j < 11" "0 \<le> off" "off < seg 13 12 (m_year_span ! j)"
        "s = cumY j + off"
      using cum_split [of 13 12 m_year_span s] rbs(2) by (auto simp: year_span_ok)
    have mm: "m0 + 1506 = 2857 * a + 136 * b + cumY j + off"
      using mar rbs j(4) by (simp add: m_def)
    define y0 where "y0 = 231 * a + 11 * b + int j - 121"
    have my: "nelsc_cycle_monthToYear m0 = Inr (y0, off)"
      unfolding y0_def by (rule monthToYear_eq [OF assms mm b j(1,2,3)])
    have lo: "NELSC_CYCLE_YEARMIN \<le> y0"
    proof (cases "a = 0")
      case True
      then have "309 \<le> 136 * b + s" using a0 rbs by simp
      then have "3 \<le> b \<or> (b = 2 \<and> 37 \<le> s)" using rbs b by arith
      then show ?thesis
      proof
        assume "3 \<le> b"
        then show ?thesis using a by (simp add: y0_def)
      next
        assume h: "b = 2 \<and> 37 \<le> s"
        then have "cumY 3 \<le> cumY j + off" using j(4) by (simp add: cumY_values)
        then have "3 \<le> j"
          using j by (intro cum_index_ge [of 13 12 j m_year_span off]) (auto simp: year_span_ok)
        then show ?thesis using a h by (simp add: y0_def)
      qed
    next
      case False
      then have "1 \<le> a" using a by simp
      then show ?thesis using b by (simp add: y0_def)
    qed
    have hi: "y0 \<le> NELSC_CYCLE_YEARMAX"
    proof (cases "a = 2")
      case True
      then have "136 * b + s \<le> 1718" using a2 rbs by simp
      then have "b \<le> 11 \<or> (b = 12 \<and> s \<le> 86)" using rbs b by arith
      then show ?thesis
      proof
        assume "b \<le> 11"
        then show ?thesis using True j(1) by (simp add: y0_def)
      next
        assume h: "b = 12 \<and> s \<le> 86"
        then have "cumY j + off < cumY 7" using j(4) by (simp add: cumY_values)
        then have "j < 7" using j by (intro cum_index_less [of 13 12 off m_year_span j]) auto
        then show ?thesis using True h by (simp add: y0_def)
      qed
    next
      case False
      then have "a \<le> 1" using a by simp
      then show ?thesis using b j(1) by (simp add: y0_def)
    qed
    have "nelsc_cycle_yearToMonth y0 = Inr (2857 * a + 136 * b + cumY j - 1506)"
      by (rule yearToMonth_eq [OF lo hi _ b j(1)]) (simp add: y0_def)
    moreover have "2857 * a + 136 * b + cumY j - 1506 + off = m0" using mm by simp
    ultimately show ?thesis using my by blast
  qed
qed

text \<open>
  C2. For every month \<open>m\<close> of the range, the first day of \<open>m\<close> is a day of the
  range that \<open>nelsc_cycle_dayToMonth\<close> maps back to \<open>m\<close> with day offset 0; for
  every day \<open>d\<close> of the range, the month of \<open>d\<close> is a month of the range, and its
  first day plus the day offset returned with it is \<open>d\<close>. For every year \<open>y\<close> of
  the range, the first month of \<open>y\<close> is a month of the range that
  \<open>nelsc_cycle_monthToYear\<close> maps back to \<open>y\<close> with month offset 0; for every
  month \<open>m\<close> of the range, the year of \<open>m\<close> is a year of the range, and its first
  month plus the month offset returned with it is \<open>m\<close>.
\<close>

theorem nelsc_cycle_roundtrip:
  "(NELSC_CYCLE_MONMIN \<le> m \<and> m \<le> NELSC_CYCLE_MONMAX \<longrightarrow>
      (\<exists>d. nelsc_cycle_monthToDay m = Inr d \<and> nelsc_cycle_dayToMonth d = Inr (m, 0)))
   \<and> (NELSC_CYCLE_DAYMIN \<le> d \<and> d \<le> NELSC_CYCLE_DAYMAX \<longrightarrow>
      (\<exists>m' off d'. nelsc_cycle_dayToMonth d = Inr (m', off)
         \<and> nelsc_cycle_monthToDay m' = Inr d' \<and> d' + off = d))
   \<and> (NELSC_CYCLE_YEARMIN \<le> y \<and> y \<le> NELSC_CYCLE_YEARMAX \<longrightarrow>
      (\<exists>m'. nelsc_cycle_yearToMonth y = Inr m' \<and> nelsc_cycle_monthToYear m' = Inr (y, 0)))
   \<and> (NELSC_CYCLE_MONMIN \<le> m \<and> m \<le> NELSC_CYCLE_MONMAX \<longrightarrow>
      (\<exists>y' off m'. nelsc_cycle_monthToYear m = Inr (y', off)
         \<and> nelsc_cycle_yearToMonth y' = Inr m' \<and> m' + off = m))"
  using monthToDay_dayToMonth [of m] dayToMonth_monthToDay [of d]
    yearToMonth_monthToYear [of y] monthToYear_yearToMonth [of m]
  by blast

theorem nelsc_cycle_roundtrip_witness:
  "nelsc_cycle_monthToDay 1350 = Inr 39851
   \<and> nelsc_cycle_dayToMonth 39851 = Inr (1350, 0)
   \<and> nelsc_cycle_dayToMonth 175020 = Inr (5926, 34)
   \<and> nelsc_cycle_monthToDay 5926 = Inr (175020 - 34)
   \<and> nelsc_cycle_yearToMonth 109 = Inr 1338
   \<and> nelsc_cycle_monthToYear 1338 = Inr (109, 0)
   \<and> nelsc_cycle_monthToYear 1350 = Inr (109, 12)
   \<and> nelsc_cycle_yearToMonth 109 = Inr (1350 - 12)"
proof -
  note rt = nelsc_cycle_roundtrip [of 1350 175020 109]
  have e1: "nelsc_cycle_monthToDay 1350 = Inr 39851" by code_simp
  have e2: "nelsc_cycle_dayToMonth 175020 = Inr (5926, 34)" by code_simp
  have e3: "nelsc_cycle_yearToMonth 109 = Inr 1338" by code_simp
  have e4: "nelsc_cycle_monthToYear 1350 = Inr (109, 12)" by code_simp
  from rt have "\<exists>d. nelsc_cycle_monthToDay 1350 = Inr d \<and> nelsc_cycle_dayToMonth d = Inr (1350, 0)"
    by simp
  with e1 have a: "nelsc_cycle_dayToMonth 39851 = Inr (1350, 0)" by auto
  from rt have "\<exists>m' off d'. nelsc_cycle_dayToMonth 175020 = Inr (m', off)
         \<and> nelsc_cycle_monthToDay m' = Inr d' \<and> d' + off = 175020"
    by simp
  with e2 have b: "nelsc_cycle_monthToDay 5926 = Inr (175020 - 34)" by auto
  from rt have "\<exists>m'. nelsc_cycle_yearToMonth 109 = Inr m' \<and> nelsc_cycle_monthToYear m' = Inr (109, 0)"
    by simp
  with e3 have c: "nelsc_cycle_monthToYear 1338 = Inr (109, 0)" by auto
  from rt have "\<exists>y' off m'. nelsc_cycle_monthToYear 1350 = Inr (y', off)
         \<and> nelsc_cycle_yearToMonth y' = Inr m' \<and> m' + off = 1350"
    by simp
  with e4 have d: "nelsc_cycle_yearToMonth 109 = Inr (1350 - 12)" by auto
  show ?thesis using e1 e2 e3 e4 a b c d by simp
qed

text \<open>
  C5. When the boosted month offset leaves the remainder 2856 in a 231-year pattern,
  \<open>nelsc_cycle_monthToYear\<close> returns year 230 of that pattern with the month offset
  12. So every year of the range that is the last of a 231-year pattern is a long year
  for \<open>nelsc_cycle_isLongYear\<close>, although the eleventh entry of the year span is
  \<open>S\<close>.
\<close>

theorem forced_long_year:
  "(NELSC_CYCLE_MONMIN \<le> m \<and> m \<le> NELSC_CYCLE_MONMAX
      \<and> (m + ABSOLUTE_MONTH_OFFSET + MONTH_UP_BOOST) mod MONTHS_PER_YEAR_PATTERN
          = MONTHS_PER_YEAR_PATTERN - 1 \<longrightarrow>
      nelsc_cycle_monthToYear m =
        Inr ((m + ABSOLUTE_MONTH_OFFSET + MONTH_UP_BOOST) div MONTHS_PER_YEAR_PATTERN
               * YEAR_PATTERN_LENGTH + (YEAR_PATTERN_LENGTH - 1) - YEAR_UP_SINK,
             MONTHS_PER_LONG_YEAR - 1))
   \<and> (NELSC_CYCLE_YEARMIN \<le> y \<and> y \<le> NELSC_CYCLE_YEARMAX
      \<and> (y + YEAR_DOWN_BOOST) mod YEAR_PATTERN_LENGTH = YEAR_PATTERN_LENGTH - 1 \<longrightarrow>
      nelsc_cycle_isLongYear y = Inr True)
   \<and> char_at m_year_span 10 = CHR ''S''
   \<and> charToBool (char_at m_year_span 10) = Inr False"
proof (intro conjI impI)
  assume h: "NELSC_CYCLE_MONMIN \<le> m \<and> m \<le> NELSC_CYCLE_MONMAX
      \<and> (m + ABSOLUTE_MONTH_OFFSET + MONTH_UP_BOOST) mod MONTHS_PER_YEAR_PATTERN
          = MONTHS_PER_YEAR_PATTERN - 1"
  define a where "a = (m + 1506) div 2857"
  have "m + 1506 = 2857 * a + (m + 1506) mod 2857" by (simp add: a_def)
  then have mm: "m + 1506 = 2857 * a + 2856" using h by (simp add: add.assoc)
  have "nelsc_cycle_monthToYear m = Inr (231 * a + 230 - 121, 12)"
    using h by (intro monthToYear_forced mm) auto
  then show "nelsc_cycle_monthToYear m =
        Inr ((m + ABSOLUTE_MONTH_OFFSET + MONTH_UP_BOOST) div MONTHS_PER_YEAR_PATTERN
               * YEAR_PATTERN_LENGTH + (YEAR_PATTERN_LENGTH - 1) - YEAR_UP_SINK,
             MONTHS_PER_LONG_YEAR - 1)"
    by (simp add: a_def add.assoc)
next
  assume h: "NELSC_CYCLE_YEARMIN \<le> y \<and> y \<le> NELSC_CYCLE_YEARMAX
      \<and> (y + YEAR_DOWN_BOOST) mod YEAR_PATTERN_LENGTH = YEAR_PATTERN_LENGTH - 1"
  then have "y = 109 \<or> y = 340" by presburger
  moreover have "nelsc_cycle_isLongYear 109 = Inr True" by code_simp
  moreover have "nelsc_cycle_isLongYear 340 = Inr True" by code_simp
  ultimately show "nelsc_cycle_isLongYear y = Inr True" by auto
next
  show "char_at m_year_span 10 = CHR ''S''" by code_simp
  show "charToBool (char_at m_year_span 10) = Inr False" by code_simp
qed

theorem forced_long_year_witness:
  "nelsc_cycle_monthToYear 1350 = Inr (109, 12) \<and> nelsc_cycle_isLongYear 109 = Inr True
   \<and> nelsc_cycle_monthToYear 4207 = Inr (340, 12) \<and> nelsc_cycle_isLongYear 340 = Inr True"
  using forced_long_year [of 1350 109] forced_long_year [of 4207 340] by simp

section \<open>The months of the March-based year\<close>

lemma msum_values:
  "msum 0 = 0" "msum 1 = 31" "msum 2 = 61" "msum 3 = 92" "msum 4 = 122" "msum 5 = 153"
  "msum 6 = 184" "msum 7 = 214" "msum 8 = 245" "msum 9 = 275" "msum 10 = 306" "msum 11 = 337"
  "msum 12 = 366"
  by (simp_all add: msum_def)

lemma month_cases:
  assumes "0 \<le> mi" "mi \<le> (11::int)"
  shows "mi = 0 \<or> mi = 1 \<or> mi = 2 \<or> mi = 3 \<or> mi = 4 \<or> mi = 5 \<or> mi = 6 \<or> mi = 7 \<or> mi = 8
         \<or> mi = 9 \<or> mi = 10 \<or> mi = 11"
  using assms by arith

lemma monthLength_values:
  "monthLength 0 = Inr 31" "monthLength 1 = Inr 30" "monthLength 2 = Inr 31"
  "monthLength 3 = Inr 30" "monthLength 4 = Inr 31" "monthLength 5 = Inr 31"
  "monthLength 6 = Inr 30" "monthLength 7 = Inr 31" "monthLength 8 = Inr 30"
  "monthLength 9 = Inr 31" "monthLength 10 = Inr 31" "monthLength 11 = Inr 0"
  by (simp_all add: monthLength_def m_pattern_def)

lemma month_add_eq:
  assumes "0 \<le> mi" "mi \<le> 11"
  shows "month_add 0 mi offs = Inr (offs + msum mi)"
  using month_cases [OF assms]
  by (elim disjE) (simp_all add: month_add.simps monthLength_values msum_values)

lemma month_scan_eq:
  assumes "0 \<le> mi" "mi \<le> 11" "msum mi \<le> d" "d < msum (mi + 1)"
  shows "month_scan 0 d = Inr (mi, d - msum mi)"
  using month_cases [OF assms(1,2)] assms(3,4)
  by (elim disjE) (simp_all add: month_scan.simps monthLength_values msum_values)

lemma month_exists:
  assumes "0 \<le> d" "d \<le> 365"
  shows "\<exists>mi. 0 \<le> mi \<and> mi \<le> 11 \<and> msum mi \<le> d \<and> d < msum (mi + 1)"
proof -
  have "d < 31 \<or> (31 \<le> d \<and> d < 61) \<or> (61 \<le> d \<and> d < 92) \<or> (92 \<le> d \<and> d < 122)
    \<or> (122 \<le> d \<and> d < 153) \<or> (153 \<le> d \<and> d < 184) \<or> (184 \<le> d \<and> d < 214)
    \<or> (214 \<le> d \<and> d < 245) \<or> (245 \<le> d \<and> d < 275) \<or> (275 \<le> d \<and> d < 306)
    \<or> (306 \<le> d \<and> d < 337) \<or> (337 \<le> d \<and> d < 366)"
    using assms by arith
  then show ?thesis
  proof (elim disjE)
    assume "d < 31" then show ?thesis using assms by (intro exI [of _ 0]) (simp add: msum_values)
  next
    assume "31 \<le> d \<and> d < 61" then show ?thesis by (intro exI [of _ 1]) (simp add: msum_values)
  next
    assume "61 \<le> d \<and> d < 92" then show ?thesis by (intro exI [of _ 2]) (simp add: msum_values)
  next
    assume "92 \<le> d \<and> d < 122" then show ?thesis by (intro exI [of _ 3]) (simp add: msum_values)
  next
    assume "122 \<le> d \<and> d < 153" then show ?thesis by (intro exI [of _ 4]) (simp add: msum_values)
  next
    assume "153 \<le> d \<and> d < 184" then show ?thesis by (intro exI [of _ 5]) (simp add: msum_values)
  next
    assume "184 \<le> d \<and> d < 214" then show ?thesis by (intro exI [of _ 6]) (simp add: msum_values)
  next
    assume "214 \<le> d \<and> d < 245" then show ?thesis by (intro exI [of _ 7]) (simp add: msum_values)
  next
    assume "245 \<le> d \<and> d < 275" then show ?thesis by (intro exI [of _ 8]) (simp add: msum_values)
  next
    assume "275 \<le> d \<and> d < 306" then show ?thesis by (intro exI [of _ 9]) (simp add: msum_values)
  next
    assume "306 \<le> d \<and> d < 337" then show ?thesis by (intro exI [of _ 10]) (simp add: msum_values)
  next
    assume "337 \<le> d \<and> d < 366" then show ?thesis by (intro exI [of _ 11]) (simp add: msum_values)
  qed
qed

section \<open>The split of a day offset and of a year\<close>

lemma divmod_eq:
  fixes a b q r :: int
  assumes "a = b * q + r" "0 \<le> r" "r < b"
  shows "a div b = q" "a mod b = r"
  using assms by (auto intro: int_div_pos_eq int_mod_pos_eq)

lemma c_divmod_eq:
  fixes a b q r :: int
  assumes "a = b * q + r" "0 \<le> r" "r < b" "0 \<le> q"
  shows "c_div a b = q" "c_mod a b = r"
proof -
  have "0 \<le> b * q" using assms by simp
  then have a: "0 \<le> a" using assms by simp
  have b: "0 < b" using assms by simp
  show "c_div a b = q" "c_mod a b = r"
    using divmod_eq [OF assms(1,2,3)] by (simp_all add: c_div_nonneg [OF a b] c_mod_nonneg [OF a b])
qed

lemma offset_split_steps:
  assumes "c_div offs 146097 = qc" "c_mod offs 146097 = r1"
    and "c_div r1 36524 = c" "c_mod r1 36524 = r2"
    and "c_div r2 1461 = q" "c_mod r2 1461 = r3"
    and "c_div r3 365 = y" "c_mod r3 365 = d"
  shows "offset_split offs =
    (if c = 4 then (qc, 3, 24, 3, 365)
     else if y = 4 then (qc, c, q, 3, 365)
     else (qc, c, q, y, d))"
  unfolding offset_split_def Let_def assms
  by (cases "c = 4"; cases "y = 4") simp_all

lemma offset_split_compose:
  assumes "digits_ok qc c q y" "0 \<le> d" "d \<le> 365" "d = 365 \<Longrightarrow> leap_digits c q y"
  shows "offset_split (compose qc c q y d) = (qc, c, q, y, d)"
proof -
  have dg: "0 \<le> qc" "0 \<le> c" "c \<le> 3" "0 \<le> q" "q \<le> 24" "0 \<le> y" "y \<le> 3"
    using assms(1) by (auto simp: digits_ok_def)
  define r3 where "r3 = 365 * y + d"
  define r2 where "r2 = 1461 * q + r3"
  define r1 where "r1 = 36524 * c + r2"
  define offs where "offs = 146097 * qc + r1"
  have offs: "compose qc c q y d = offs"
    by (simp add: compose_def offs_def r1_def r2_def r3_def)
  have r3: "0 \<le> r3" "r3 \<le> 1460" using dg assms(2,3) by (auto simp: r3_def)
  have r2: "0 \<le> r2" "r2 \<le> 36524" using dg r3 by (auto simp: r2_def)
  have r1: "0 \<le> r1" "r1 < 146097" using dg r2 by (auto simp: r1_def)
  note s1 = c_divmod_eq [OF offs_def r1 dg(1)]
  show ?thesis
  proof (cases "d = 365")
    case True
    then have y3: "y = 3" and qc': "q < 24 \<or> c = 3" using assms(4) by (auto simp: leap_digits_def)
    have r3e: "r3 = 1460" using True y3 by (simp add: r3_def)
    show ?thesis
    proof (cases "q = 24")
      case True
      then have c3: "c = 3" using qc' by simp
      have e: "r1 = 36524 * 4 + 0" using c3 True r3e by (simp add: r1_def r2_def)
      note s2 = c_divmod_eq [OF e]
      have z: "(0::int) = 1461 * 0 + 0" "(0::int) = 365 * 0 + 0" by simp_all
      note s3 = c_divmod_eq [OF z(1)]
      note s4 = c_divmod_eq [OF z(2)]
      have "offset_split offs = (qc, 3, 24, 3, 365)"
        by (subst offset_split_steps [OF s1 s2 s3 s4]) simp_all
      then have "offset_split offs = (qc, c, q, y, d)"
        using c3 True y3 \<open>d = 365\<close> by simp
      then show ?thesis by (simp only: offs)
    next
      case False
      then have q23: "q \<le> 23" using dg by simp
      have r2': "r2 < 36524" using q23 r3 by (simp add: r2_def)
      note s2 = c_divmod_eq [OF r1_def r2(1) r2' dg(2)]
      have e: "r2 = 1461 * q + 1460" using r3e by (simp add: r2_def)
      note s3 = c_divmod_eq [OF e _ _ dg(4)]
      have z: "(1460::int) = 365 * 4 + 0" by simp
      note s4 = c_divmod_eq [OF z]
      have "offset_split offs = (qc, c, q, 3, 365)"
        using dg by (subst offset_split_steps [OF s1 s2 s3 s4]) simp_all
      then have "offset_split offs = (qc, c, q, y, d)"
        using y3 \<open>d = 365\<close> by simp
      then show ?thesis by (simp only: offs)
    qed
  next
    case False
    then have d364: "d < 365" using assms(3) by simp
    have r3': "r3 < 1461" using dg d364 by (simp add: r3_def)
    have r2': "r2 < 36524" using dg d364 by (simp add: r2_def r3_def)
    note s2 = c_divmod_eq [OF r1_def r2(1) r2' dg(2)]
    note s3 = c_divmod_eq [OF r2_def r3(1) r3' dg(4)]
    note s4 = c_divmod_eq [OF r3_def assms(2) d364 dg(6)]
    have "offset_split offs = (qc, c, q, y, d)"
      using dg by (subst offset_split_steps [OF s1 s2 s3 s4]) simp_all
    then show ?thesis by (simp only: offs)
  qed
qed

lemma digits_exist:
  assumes "0 \<le> offs"
  shows "\<exists>qc c q y d. digits_ok qc c q y \<and> 0 \<le> d \<and> d \<le> 365
           \<and> (d < 365 \<or> leap_digits c q y) \<and> offs = compose qc c q y d"
proof -
  define qc where "qc = offs div 146097"
  define r1 where "r1 = offs mod 146097"
  have a: "offs = 146097 * qc + r1" "0 \<le> r1" "r1 < 146097" by (auto simp: qc_def r1_def)
  have qc: "0 \<le> qc" using assms a by linarith
  show ?thesis
  proof (cases "r1 = 146096")
    case True
    have "digits_ok qc 3 24 3 \<and> (0::int) \<le> 365 \<and> (365::int) \<le> 365
           \<and> ((365::int) < 365 \<or> leap_digits 3 24 3) \<and> offs = compose qc 3 24 3 365"
      using a True qc by (simp add: digits_ok_def leap_digits_def compose_def)
    then show ?thesis by blast
  next
    case False
    define c where "c = r1 div 36524"
    define r2 where "r2 = r1 mod 36524"
    have b: "r1 = 36524 * c + r2" "0 \<le> r2" "r2 < 36524" by (auto simp: c_def r2_def)
    have c: "0 \<le> c" "c \<le> 3" using a b False by linarith+
    define q where "q = r2 div 1461"
    define r3 where "r3 = r2 mod 1461"
    have e: "r2 = 1461 * q + r3" "0 \<le> r3" "r3 < 1461" by (auto simp: q_def r3_def)
    have q: "0 \<le> q" "q \<le> 24" using b e by linarith+
    show ?thesis
    proof (cases "r3 = 1460")
      case True
      then have "q < 24" using b e q by linarith
      then have "digits_ok qc c q 3 \<and> (0::int) \<le> 365 \<and> (365::int) \<le> 365
           \<and> ((365::int) < 365 \<or> leap_digits c q 3) \<and> offs = compose qc c q 3 365"
        using a b e True qc c q by (simp add: digits_ok_def leap_digits_def compose_def)
      then show ?thesis by blast
    next
      case False
      define y where "y = r3 div 365"
      define d where "d = r3 mod 365"
      have f: "r3 = 365 * y + d" "0 \<le> d" "d < 365" by (auto simp: y_def d_def)
      have y: "0 \<le> y" "y \<le> 3" using e f False by linarith+
      have "digits_ok qc c q y \<and> 0 \<le> d \<and> d \<le> 365
           \<and> (d < 365 \<or> leap_digits c q y) \<and> offs = compose qc c q y d"
        using a b e f qc c q y by (simp add: digits_ok_def compose_def)
      then show ?thesis by blast
    qed
  qed
qed

lemma year_digits_exist:
  assumes "0 \<le> Y"
  shows "\<exists>qc c q y. digits_ok qc c q y \<and> Y = 400 * qc + 100 * c + 4 * q + y"
proof -
  define qc where "qc = Y div 400"
  define r1 where "r1 = Y mod 400"
  have a: "Y = 400 * qc + r1" "0 \<le> r1" "r1 < 400" by (auto simp: qc_def r1_def)
  have qc: "0 \<le> qc" using assms a by linarith
  define c where "c = r1 div 100"
  define r2 where "r2 = r1 mod 100"
  have b: "r1 = 100 * c + r2" "0 \<le> r2" "r2 < 100" by (auto simp: c_def r2_def)
  have c: "0 \<le> c" "c \<le> 3" using a b by linarith+
  define q where "q = r2 div 4"
  define y where "y = r2 mod 4"
  have e: "r2 = 4 * q + y" "0 \<le> y" "y < 4" by (auto simp: q_def y_def)
  have q: "0 \<le> q" "q \<le> 24" using b e by linarith+
  have "digits_ok qc c q y \<and> Y = 400 * qc + 100 * c + 4 * q + y"
    using a b e qc c q by (simp add: digits_ok_def)
  then show ?thesis by blast
qed

lemma march_offset_eq:
  assumes "digits_ok qc c q y" "0 \<le> mi" "mi \<le> 11"
  shows "march_offset (400 * qc + 100 * c + 4 * q + y + 1200) mi dd
         = Inr (compose qc c q y (msum mi + dd))"
proof -
  have dg: "0 \<le> qc" "0 \<le> c" "c \<le> 3" "0 \<le> q" "q \<le> 24" "0 \<le> y" "y \<le> 3"
    using assms(1) by (auto simp: digits_ok_def)
  define r2 where "r2 = 4 * q + y"
  define r1 where "r1 = 100 * c + r2"
  define Y where "Y = 400 * qc + r1"
  have Y: "400 * qc + 100 * c + 4 * q + y + 1200 = Y + 1200" by (simp add: Y_def r1_def r2_def)
  have r2: "0 \<le> r2" "r2 < 100" using dg by (auto simp: r2_def)
  have r1: "0 \<le> r1" "r1 < 400" using dg r2 by (auto simp: r1_def)
  have Y0: "0 \<le> Y" using dg r1 by (auto simp: Y_def)
  have d1: "Y div 400 = qc" "Y mod 400 = r1"
    using r1 by (auto intro!: divmod_eq [of Y 400 qc r1] simp: Y_def)
  have d2: "r1 div 100 = c" "r1 mod 100 = r2"
    using r2 by (auto intro!: divmod_eq [of r1 100 c r2] simp: r1_def)
  have d3: "r2 div 4 = q" "r2 mod 4 = y"
    using dg by (auto intro!: divmod_eq [of r2 4 q y] simp: r2_def)
  show ?thesis
    using Y0 r1 r2 d1 d2 d3 month_add_eq [OF assms(2,3)]
    by (simp add: Y march_offset_def compose_def)
qed

lemma leap_year_digits:
  assumes "digits_ok qc c q y"
  shows "gregorian_leap (400 * qc + 100 * c + 4 * q + y + 1201) = leap_digits c q y"
proof -
  have dg: "0 \<le> qc" "0 \<le> c" "c \<le> 3" "0 \<le> q" "q \<le> 24" "0 \<le> y" "y \<le> 3"
    using assms(1) by (auto simp: digits_ok_def)
  define Y where "Y = 400 * qc + 100 * c + 4 * q + y + 1201"
  have m4: "Y mod 4 = (if y = 3 then 0 else y + 1)"
  proof (cases "y = 3")
    case True
    then have "Y = 4 * (100 * qc + 25 * c + q + 301) + 0" by (simp add: Y_def)
    from divmod_eq(2) [OF this] True show ?thesis by simp
  next
    case False
    have "Y = 4 * (100 * qc + 25 * c + q + 300) + (y + 1)" by (simp add: Y_def)
    from divmod_eq(2) [OF this] False dg show ?thesis by simp
  qed
  have m100: "Y mod 100 = (if q = 24 \<and> y = 3 then 0 else 4 * q + y + 1)"
  proof (cases "q = 24 \<and> y = 3")
    case True
    then have "Y = 100 * (4 * qc + c + 13) + 0" by (simp add: Y_def)
    from divmod_eq(2) [OF this] True show ?thesis by simp
  next
    case False
    then have lt: "4 * q + y + 1 < 100" using dg by arith
    have "Y = 100 * (4 * qc + c + 12) + (4 * q + y + 1)" by (simp add: Y_def)
    from divmod_eq(2) [OF this] False dg lt show ?thesis by simp
  qed
  have m400: "Y mod 400 = (if c = 3 \<and> q = 24 \<and> y = 3 then 0 else 100 * c + 4 * q + y + 1)"
  proof (cases "c = 3 \<and> q = 24 \<and> y = 3")
    case True
    then have "Y = 400 * (qc + 4) + 0" by (simp add: Y_def)
    from divmod_eq(2) [OF this] True show ?thesis by simp
  next
    case False
    then have lt: "100 * c + 4 * q + y + 1 < 400" using dg by arith
    have "Y = 400 * (qc + 3) + (100 * c + 4 * q + y + 1)" by (simp add: Y_def)
    from divmod_eq(2) [OF this] False dg lt show ?thesis by simp
  qed
  show ?thesis
    unfolding gregorian_leap_def Y_def [symmetric] m4 m100 m400 leap_digits_def
    using dg by auto
qed

lemma isLeapYear_gregorian: "1 \<le> y \<Longrightarrow> isLeapYear y = Inr (gregorian_leap y)"
  by (auto simp: isLeapYear_def gregorian_leap_def)

section \<open>Dates and day offsets\<close>

lemma msum_nonneg: "0 \<le> mi \<Longrightarrow> mi \<le> 11 \<Longrightarrow> 0 \<le> msum mi"
  using month_cases [of mi] by (auto simp: msum_values)

lemma msum_next_le: "0 \<le> mi \<Longrightarrow> mi \<le> 11 \<Longrightarrow> msum (mi + 1) \<le> 366"
  using month_cases [of mi] by (auto simp: msum_values)

lemma msum_next_early: "0 \<le> mi \<Longrightarrow> mi \<le> 10 \<Longrightarrow> msum (mi + 1) \<le> 337"
  using month_cases [of mi] by (auto simp: msum_values)

lemma msum_late: "10 \<le> mi \<Longrightarrow> mi \<le> 11 \<Longrightarrow> 306 \<le> msum mi"
  using month_cases [of mi] by (auto simp: msum_values)

lemma march_based_inverse:
  assumes "0 \<le> mi" "mi \<le> 11"
  shows "march_based (if 10 \<le> mi then Y + 1 else Y) (if 10 \<le> mi then mi - 9 else mi + 3) = (Y, mi)"
  using assms by (auto simp: march_based_def)

lemma march_based_range:
  assumes "1 \<le> month" "month \<le> 12" "march_based year month = (Y, mi)"
  shows "0 \<le> mi" "mi \<le> 11" "year = (if 10 \<le> mi then Y + 1 else Y)"
    "month = (if 10 \<le> mi then mi - 9 else mi + 3)"
  using assms by (auto simp: march_based_def Let_def split: if_splits)

lemma month_days_march:
  assumes "0 \<le> mi" "mi \<le> 11"
  shows "gregorian_month_days (if 10 \<le> mi then Y + 1 else Y) (if 10 \<le> mi then mi - 9 else mi + 3)
         = (if mi = 11 then (if gregorian_leap (Y + 1) then 29 else 28)
            else msum (mi + 1) - msum mi)"
  using month_cases [OF assms]
  by (elim disjE) (simp_all add: gregorian_month_days_def msum_values)

lemma march_month_len_eq:
  assumes "0 \<le> mi" "mi \<le> 11" "0 \<le> Y"
  shows "march_month_len Y mi
         = Inr (if mi = 11 then (if gregorian_leap (Y + 1) then 29 else 28)
                else msum (mi + 1) - msum mi)"
proof -
  have l: "isLeapYear (Y + 1) = Inr (gregorian_leap (Y + 1))"
    using assms(3) by (intro isLeapYear_gregorian) simp
  show ?thesis
    using month_cases [OF assms(1,2)]
    by (elim disjE) (simp_all add: march_month_len_def monthLength_values msum_values l)
qed

lemma dateToOffset_char:
  "grcal_dateToOffset year month day =
     (if year \<le> 1200 \<or> 9999 < year \<or> month < 1 \<or> 12 < month \<or> day < 1
         \<or> gregorian_month_days year month < day
      then Inl Invalid
      else (case computed_offset year month day of
              Inl e \<Rightarrow> Inl e
            | Inr offs \<Rightarrow>
                if offs < GRCAL_DAY_MIN \<or> GRCAL_DAY_MAX < offs then Inl Invalid else Inr offs))"
proof (cases "year \<le> 1200 \<or> 9999 < year \<or> month < 1 \<or> 12 < month \<or> day < 1")
  case True
  then show ?thesis by (auto simp: grcal_dateToOffset_def)
next
  case False
  then have v: "1200 < year" "year \<le> 9999" "1 \<le> month" "month \<le> 12" "1 \<le> day" by auto
  obtain Y mi where mb: "march_based year month = (Y, mi)" by (cases "march_based year month")
  note r = march_based_range [OF v(3,4) mb]
  have Y0: "0 \<le> Y" using r(3) v(1) by (auto split: if_splits)
  have len: "march_month_len Y mi = Inr (gregorian_month_days year month)"
    unfolding march_month_len_eq [OF r(1,2) Y0]
    using month_days_march [OF r(1,2), of Y] r(3,4) by simp
  show ?thesis
    using v by (auto simp: grcal_dateToOffset_def mb len computed_offset_def)
qed

lemma offsetToDate_eq:
  assumes "digits_ok qc c q y" "0 \<le> mi" "mi \<le> 11" "msum mi \<le> d" "d < msum (mi + 1)"
    and "d = 365 \<Longrightarrow> leap_digits c q y"
    and "GRCAL_DAY_MIN \<le> compose qc c q y d" "compose qc c q y d \<le> GRCAL_DAY_MAX"
    and "Y = 400 * qc + 100 * c + 4 * q + y + 1200"
  shows "grcal_offsetToDate (compose qc c q y d)
         = Inr (if 10 \<le> mi then Y + 1 else Y, if 10 \<le> mi then mi - 9 else mi + 3,
                d - msum mi + 1)"
proof -
  have d: "0 \<le> d" "d \<le> 365"
    using msum_nonneg [OF assms(2,3)] msum_next_le [OF assms(2,3)] assms(4,5) by auto
  have sp: "offset_split (compose qc c q y d) = (qc, c, q, y, d)"
    by (rule offset_split_compose [OF assms(1) d assms(6)])
  have sc: "month_scan 0 d = Inr (mi, d - msum mi)"
    by (rule month_scan_eq [OF assms(2,3,4,5)])
  show ?thesis
    using assms(2,3,7,8) by (simp add: grcal_offsetToDate_def sp sc assms(9))
qed

lemma computed_offset_eq:
  assumes "1 \<le> month" "month \<le> 12" "march_based year month = (Y, mi)"
    and "digits_ok qc c q y" "Y = 400 * qc + 100 * c + 4 * q + y + 1200"
  shows "computed_offset year month day = Inr (compose qc c q y (msum mi + (day - 1)))"
  using march_based_range(1,2) [OF assms(1,2,3)] march_offset_eq [OF assms(4)]
  by (simp add: computed_offset_def assms(3,5))

lemma computed_offset_valid:
  assumes "1200 < year" "1 \<le> month" "month \<le> 12"
  shows "\<exists>offs. computed_offset year month day = Inr offs"
proof -
  obtain Y mi where mb: "march_based year month = (Y, mi)" by (cases "march_based year month")
  note r = march_based_range [OF assms(2,3) mb]
  have "0 \<le> Y - 1200" using r(3) assms(1) by (auto split: if_splits)
  then obtain qc c q y where dg: "digits_ok qc c q y" "Y - 1200 = 400 * qc + 100 * c + 4 * q + y"
    using year_digits_exist by blast
  then have "Y = 400 * qc + 100 * c + 4 * q + y + 1200" by simp
  from computed_offset_eq [OF assms(2,3) mb dg(1) this] show ?thesis by blast
qed

lemma offsetToDate_dateToOffset:
  assumes "GRCAL_DAY_MIN \<le> offs" "offs \<le> GRCAL_DAY_MAX"
  shows "\<exists>y m d. grcal_offsetToDate offs = Inr (y, m, d) \<and> grcal_dateToOffset y m d = Inr offs"
proof -
  have "0 \<le> offs" using assms by simp
  then obtain qc c q y d where dg: "digits_ok qc c q y" and d: "0 \<le> d" "d \<le> 365"
    and lp: "d < 365 \<or> leap_digits c q y" and offs: "offs = compose qc c q y d"
    using digits_exist by blast
  obtain mi where mi: "0 \<le> mi" "mi \<le> 11" "msum mi \<le> d" "d < msum (mi + 1)"
    using month_exists [OF d] by blast
  have dgs: "0 \<le> qc" "0 \<le> c" "c \<le> 3" "0 \<le> q" "q \<le> 24" "0 \<le> y" "y \<le> 3"
    using dg by (auto simp: digits_ok_def)
  define Y where "Y = 400 * qc + 100 * c + 4 * q + y + 1200"
  define jy where "jy = (if 10 \<le> mi then Y + 1 else Y)"
  define jm where "jm = (if 10 \<le> mi then mi - 9 else mi + 3)"
  define jd where "jd = d - msum mi + 1"
  have od: "grcal_offsetToDate offs = Inr (jy, jm, jd)"
    unfolding offs jy_def jm_def jd_def
    using lp assms by (intro offsetToDate_eq [OF dg mi _ _ _ Y_def]) (auto simp: offs)
  have cmp: "offs = 146097 * qc + 36524 * c + 1461 * q + 365 * y + d"
    by (simp add: offs compose_def)
  have "Y \<noteq> 1200"
  proof
    assume "Y = 1200"
    then have "qc = 0" "c = 0" "q = 0" "y = 0" using dgs unfolding Y_def by linarith+
    then show False using cmp d assms by simp
  qed
  then have Ylo: "1201 \<le> Y" using dgs by (simp add: Y_def)
  have qc21: "qc \<le> 21" using cmp dgs d assms by linarith
  have Yhi: "Y \<le> 9999" using qc21 dgs by (simp add: Y_def)
  have jylo: "1200 < jy" using Ylo by (simp add: jy_def)
  have jyhi: "jy \<le> 9999"
  proof (cases "10 \<le> mi")
    case False
    then show ?thesis using Yhi by (simp add: jy_def)
  next
    case True
    have "Y \<noteq> 9999"
    proof
      assume "Y = 9999"
      then have "qc = 21" "c = 3" "q = 24" "y = 3" using dgs qc21 unfolding Y_def by linarith+
      then have "d \<le> 305" using cmp assms by simp
      then show False using msum_late [OF True mi(2)] mi(3) by simp
    qed
    then show ?thesis using Yhi True by (simp add: jy_def)
  qed
  have jm: "1 \<le> jm" "jm \<le> 12" using mi by (auto simp: jm_def)
  have jd1: "1 \<le> jd" using mi by (simp add: jd_def)
  have "Y + 1 = 400 * qc + 100 * c + 4 * q + y + 1201" by (simp add: Y_def)
  then have leap: "gregorian_leap (Y + 1) = leap_digits c q y"
    by (simp only: leap_year_digits [OF dg])
  have gmd: "gregorian_month_days jy jm
         = (if mi = 11 then (if gregorian_leap (Y + 1) then 29 else 28)
            else msum (mi + 1) - msum mi)"
    unfolding jy_def jm_def by (rule month_days_march [OF mi(1,2)])
  have jdhi: "\<not> gregorian_month_days jy jm < jd"
  proof (cases "mi = 11")
    case True
    then show ?thesis using lp d leap by (auto simp: gmd jd_def msum_values)
  next
    case False
    then show ?thesis using mi by (simp add: gmd jd_def)
  qed
  have mb: "march_based jy jm = (Y, mi)"
    unfolding jy_def jm_def by (rule march_based_inverse [OF mi(1,2)])
  have co: "computed_offset jy jm jd = Inr offs"
    unfolding computed_offset_eq [OF jm mb dg Y_def] by (simp add: offs jd_def)
  have "grcal_dateToOffset jy jm jd = Inr offs"
    unfolding dateToOffset_char using jylo jyhi jm jd1 jdhi assms by (simp add: co)
  with od show ?thesis by blast
qed

lemma dateToOffset_offsetToDate:
  assumes "grcal_dateToOffset year month day = Inr offs"
  shows "grcal_offsetToDate offs = Inr (year, month, day)"
proof -
  have v: "1200 < year" "year \<le> 9999" "1 \<le> month" "month \<le> 12" "1 \<le> day"
      "day \<le> gregorian_month_days year month"
    using assms unfolding dateToOffset_char by (auto split: if_splits)
  obtain Y mi where mb: "march_based year month = (Y, mi)" by (cases "march_based year month")
  note r = march_based_range [OF v(3,4) mb]
  have "0 \<le> Y - 1200" using r(3) v(1) by (auto split: if_splits)
  then obtain qc c q y where dg: "digits_ok qc c q y" and "Y - 1200 = 400 * qc + 100 * c + 4 * q + y"
    using year_digits_exist by blast
  then have Y: "Y = 400 * qc + 100 * c + 4 * q + y + 1200" by simp
  define d where "d = msum mi + (day - 1)"
  have co: "computed_offset year month day = Inr (compose qc c q y d)"
    unfolding d_def by (rule computed_offset_eq [OF v(3,4) mb dg Y])
  have rng: "GRCAL_DAY_MIN \<le> compose qc c q y d" "compose qc c q y d \<le> GRCAL_DAY_MAX"
    and offs: "offs = compose qc c q y d"
    using assms v unfolding dateToOffset_char by (auto simp: co split: if_splits)
  have gmd: "gregorian_month_days year month
         = (if mi = 11 then (if gregorian_leap (Y + 1) then 29 else 28)
            else msum (mi + 1) - msum mi)"
    using month_days_march [OF r(1,2), of Y] r(3,4) by simp
  have "Y + 1 = 400 * qc + 100 * c + 4 * q + y + 1201" by (simp add: Y)
  then have leap: "gregorian_leap (Y + 1) = leap_digits c q y"
    by (simp only: leap_year_digits [OF dg])
  have lo: "msum mi \<le> d" using v(5) by (simp add: d_def)
  have hi: "d < msum (mi + 1)"
  proof (cases "mi = 11")
    case True
    then show ?thesis using v(6) by (auto simp: gmd d_def msum_values split: if_splits)
  next
    case False
    then show ?thesis using v(6) by (simp add: gmd d_def)
  qed
  have lp: "leap_digits c q y" if "d = 365"
  proof -
    have "mi = 11"
    proof (rule ccontr)
      assume "mi \<noteq> 11"
      then have "mi \<le> 10" using r(2) by simp
      from msum_next_early [OF r(1) this] hi that show False by simp
    qed
    then show ?thesis using v(6) that leap by (auto simp: gmd d_def msum_values split: if_splits)
  qed
  have "grcal_offsetToDate (compose qc c q y d)
         = Inr (if 10 \<le> mi then Y + 1 else Y, if 10 \<le> mi then mi - 9 else mi + 3,
                d - msum mi + 1)"
    by (rule offsetToDate_eq [OF dg r(1,2) lo hi lp rng Y])
  then show ?thesis using r(3,4) by (simp add: offs d_def)
qed

text \<open>
  C1. For every day offset of the range 139750 to 3214073, \<open>grcal_offsetToDate\<close>
  returns a date on which \<open>grcal_dateToOffset\<close> succeeds with that same offset; and
  whenever \<open>grcal_dateToOffset\<close> succeeds on a year, month and day with an offset,
  \<open>grcal_offsetToDate\<close> returns that year, month and day for the offset.
\<close>

theorem grcal_roundtrip:
  "(GRCAL_DAY_MIN \<le> offs \<and> offs \<le> GRCAL_DAY_MAX \<longrightarrow>
      (\<exists>y m d. grcal_offsetToDate offs = Inr (y, m, d) \<and> grcal_dateToOffset y m d = Inr offs))
   \<and> (grcal_dateToOffset year month day = Inr off \<longrightarrow>
      grcal_offsetToDate off = Inr (year, month, day))"
  using offsetToDate_dateToOffset [of offs] dateToOffset_offsetToDate [of year month day off]
  by blast

theorem grcal_roundtrip_witness:
  "grcal_offsetToDate 146096 = Inr (1600, 2, 29)
   \<and> grcal_dateToOffset 1600 2 29 = Inr 146096
   \<and> grcal_dateToOffset 9999 12 31 = Inr 3214073
   \<and> grcal_offsetToDate 3214073 = Inr (9999, 12, 31)"
proof -
  note rt = grcal_roundtrip [of 146096 9999 12 31 3214073]
  have e1: "grcal_offsetToDate 146096 = Inr (1600, 2, 29)" by code_simp
  have e2: "grcal_dateToOffset 9999 12 31 = Inr 3214073" by code_simp
  from rt have "\<exists>y m d. grcal_offsetToDate 146096 = Inr (y, m, d)
      \<and> grcal_dateToOffset y m d = Inr 146096"
    by simp
  with e1 have a: "grcal_dateToOffset 1600 2 29 = Inr 146096" by auto
  from rt e2 have b: "grcal_offsetToDate 3214073 = Inr (9999, 12, 31)" by simp
  show ?thesis using e1 e2 a b by simp
qed

text \<open>
  C7. \<open>grcal_dateToOffset\<close> never aborts, and it returns false exactly when the year
  is 1200 or less or greater than 9999, the month is outside 1 to 12, the day is less
  than 1 or greater than the length of the month in that year, or the day offset it
  computes is outside 139750 to 3214073. It fails on 1700-02-29 and succeeds on
  1600-02-29.
\<close>

theorem grcal_dateToOffset_rejects:
  "grcal_dateToOffset year month day \<noteq> Inl Fault
   \<and> (grcal_dateToOffset year month day = Inl Invalid) =
       (year \<le> 1200 \<or> 9999 < year \<or> month < 1 \<or> 12 < month \<or> day < 1
        \<or> gregorian_month_days year month < day
        \<or> (\<exists>offs. computed_offset year month day = Inr offs
              \<and> (offs < GRCAL_DAY_MIN \<or> GRCAL_DAY_MAX < offs)))
   \<and> grcal_dateToOffset 1700 2 29 = Inl Invalid
   \<and> grcal_dateToOffset 1600 2 29 = Inr 146096"
proof -
  have ex: "grcal_dateToOffset 1700 2 29 = Inl Invalid" "grcal_dateToOffset 1600 2 29 = Inr 146096"
    by code_simp+
  have gen: "grcal_dateToOffset year month day \<noteq> Inl Fault
   \<and> (grcal_dateToOffset year month day = Inl Invalid) =
       (year \<le> 1200 \<or> 9999 < year \<or> month < 1 \<or> 12 < month \<or> day < 1
        \<or> gregorian_month_days year month < day
        \<or> (\<exists>offs. computed_offset year month day = Inr offs
              \<and> (offs < GRCAL_DAY_MIN \<or> GRCAL_DAY_MAX < offs)))"
  proof (cases "year \<le> 1200 \<or> 9999 < year \<or> month < 1 \<or> 12 < month \<or> day < 1
        \<or> gregorian_month_days year month < day")
    case True
    then have "grcal_dateToOffset year month day = Inl Invalid"
      by (simp add: dateToOffset_char)
    then show ?thesis using True by auto
  next
    case False
    then have "1200 < year" "1 \<le> month" "month \<le> 12" by auto
    then obtain offs where "computed_offset year month day = Inr offs"
      using computed_offset_valid by blast
    then show ?thesis using False by (auto simp: dateToOffset_char)
  qed
  show ?thesis using gen ex by blast
qed

end
